theory Spec2Isabelle
  imports Main "HOL-Library.Word" "HOL-Library.List_Lexorder" "HOL-Library.Multiset"
begin

unbundle bit_operations_syntax

section \<open>Bytes, return codes and constants\<close>

text \<open>
  A script is a flat sequence of bytes (\<open>unsigned char\<close>). A buffer argument
  \<open>(bytes, bytes_len)\<close> of the C code is the list of its \<open>bytes_len\<close> bytes; sizes
  (\<open>size_t\<close>) are natural numbers, which is exact as long as no size reaches
  \<open>2 ^ 64\<close>. \<open>uint64_t\<close> and \<open>int64_t\<close> are 64-bit words, \<open>uint32_t\<close> is a
  32-bit word. Pointer arguments are valid in the model, so the \<open>NULL\<close> tests of the
  argument checks are not branches of it; the one exception is the commitment length
  classifier, whose argument is an optional buffer. An out-parameter is a component
  of the result.
\<close>

type_synonym byte = "8 word"

datatype ret = WALLY_OK | WALLY_ERROR | WALLY_EINVAL | WALLY_ENOMEM

text \<open>
  Modelled from the spec: the opcode macros of \<open>script_int.h\<close> and
  \<open>include/wally_script.h\<close> are not among the source files. The spec names the
  opcodes of the Bitcoin script wire format; their values are the ones of that format.
\<close>

definition OP_0 :: byte where "OP_0 = 0x00"
definition OP_PUSHDATA1 :: byte where "OP_PUSHDATA1 = 0x4c"
definition OP_PUSHDATA2 :: byte where "OP_PUSHDATA2 = 0x4d"
definition OP_PUSHDATA4 :: byte where "OP_PUSHDATA4 = 0x4e"
definition OP_1 :: byte where "OP_1 = 0x51"
definition OP_16 :: byte where "OP_16 = 0x60"
definition OP_IF :: byte where "OP_IF = 0x63"
definition OP_NOTIF :: byte where "OP_NOTIF = 0x64"
definition OP_ELSE :: byte where "OP_ELSE = 0x67"
definition OP_ENDIF :: byte where "OP_ENDIF = 0x68"
definition OP_RETURN :: byte where "OP_RETURN = 0x6a"
definition OP_IFDUP :: byte where "OP_IFDUP = 0x73"
definition OP_DEPTH :: byte where "OP_DEPTH = 0x74"
definition OP_DROP :: byte where "OP_DROP = 0x75"
definition OP_DUP :: byte where "OP_DUP = 0x76"
definition OP_EQUAL :: byte where "OP_EQUAL = 0x87"
definition OP_EQUALVERIFY :: byte where "OP_EQUALVERIFY = 0x88"
definition OP_1SUB :: byte where "OP_1SUB = 0x8c"
definition OP_HASH160 :: byte where "OP_HASH160 = 0xa9"
definition OP_CHECKSIG :: byte where "OP_CHECKSIG = 0xac"
definition OP_CHECKSIGVERIFY :: byte where "OP_CHECKSIGVERIFY = 0xad"
definition OP_CHECKMULTISIG :: byte where "OP_CHECKMULTISIG = 0xae"
definition OP_CHECKSEQUENCEVERIFY :: byte where "OP_CHECKSEQUENCEVERIFY = 0xb2"

text \<open>
  Modelled from the spec: the length and flag macros of \<open>include/wally_crypto.h\<close> and
  \<open>include/wally_script.h\<close> are not among the source files. The spec gives the
  lengths (33-byte compressed and 65-byte uncompressed public keys, 20-byte HASH160,
  32-byte SHA-256, the template lengths 25, 23, 22, 34 and 34); the flags are distinct
  single bits, with the values of the library's public header.
\<close>

definition EC_PUBLIC_KEY_LEN :: nat where "EC_PUBLIC_KEY_LEN = 33"
definition EC_PUBLIC_KEY_UNCOMPRESSED_LEN :: nat where "EC_PUBLIC_KEY_UNCOMPRESSED_LEN = 65"
definition EC_XONLY_PUBLIC_KEY_LEN :: nat where "EC_XONLY_PUBLIC_KEY_LEN = 32"
definition HASH160_LEN :: nat where "HASH160_LEN = 20"
definition SHA256_LEN :: nat where "SHA256_LEN = 32"

definition WALLY_SCRIPTPUBKEY_P2PKH_LEN :: nat where "WALLY_SCRIPTPUBKEY_P2PKH_LEN = 25"
definition WALLY_SCRIPTPUBKEY_P2SH_LEN :: nat where "WALLY_SCRIPTPUBKEY_P2SH_LEN = 23"
definition WALLY_SCRIPTPUBKEY_P2WPKH_LEN :: nat where "WALLY_SCRIPTPUBKEY_P2WPKH_LEN = 22"
definition WALLY_SCRIPTPUBKEY_P2WSH_LEN :: nat where "WALLY_SCRIPTPUBKEY_P2WSH_LEN = 34"
definition WALLY_SCRIPTPUBKEY_P2TR_LEN :: nat where "WALLY_SCRIPTPUBKEY_P2TR_LEN = 34"
definition WALLY_MAX_OP_RETURN_LEN :: nat where "WALLY_MAX_OP_RETURN_LEN = 80"
definition WALLY_WITNESSSCRIPT_MAX_LEN :: nat where "WALLY_WITNESSSCRIPT_MAX_LEN = 42"

definition WALLY_SCRIPT_HASH160 :: "32 word" where "WALLY_SCRIPT_HASH160 = 0x1"
definition WALLY_SCRIPT_SHA256 :: "32 word" where "WALLY_SCRIPT_SHA256 = 0x2"
definition WALLY_SCRIPT_AS_PUSH :: "32 word" where "WALLY_SCRIPT_AS_PUSH = 0x4"
definition WALLY_SCRIPT_MULTISIG_SORTED :: "32 word" where "WALLY_SCRIPT_MULTISIG_SORTED = 0x8"
definition ALL_SCRIPT_HASH_FLAGS :: "32 word" where
  "ALL_SCRIPT_HASH_FLAGS = WALLY_SCRIPT_HASH160 OR WALLY_SCRIPT_SHA256"

text \<open>The script type tags returned by the classifier.\<close>

datatype script_type =
    WALLY_SCRIPT_TYPE_UNKNOWN
  | WALLY_SCRIPT_TYPE_OP_RETURN
  | WALLY_SCRIPT_TYPE_P2PKH
  | WALLY_SCRIPT_TYPE_P2SH
  | WALLY_SCRIPT_TYPE_P2WPKH
  | WALLY_SCRIPT_TYPE_P2WSH
  | WALLY_SCRIPT_TYPE_P2TR
  | WALLY_SCRIPT_TYPE_MULTISIG
  | WALLY_SCRIPT_TYPE_CSV2OF2_1
  | WALLY_SCRIPT_TYPE_CSV2OF2_1_OPT

section \<open>Varint codec\<close>

definition VI_TAG_16 :: byte where "VI_TAG_16 = 253"
definition VI_TAG_32 :: byte where "VI_TAG_32 = 254"
definition VI_TAG_64 :: byte where "VI_TAG_64 = 255"

definition VI_MAX_8 :: "64 word" where "VI_MAX_8 = 252"
definition VI_MAX_16 :: "64 word" where "VI_MAX_16 = 0xFFFF"  \<comment> \<open>\<open>USHRT_MAX\<close>\<close>
definition VI_MAX_32 :: "64 word" where "VI_MAX_32 = 0xFFFFFFFF"  \<comment> \<open>\<open>UINT_MAX\<close>\<close>

text \<open>
  Modelled from the spec: the helpers \<open>uint8_to_le_bytes\<close> \dots \<open>uint64_to_le_bytes\<close>
  of \<open>internal.h\<close> are not among the source files. Each stores its argument
  little-endian and returns the number of bytes stored; the model returns that number
  together with the bytes.
\<close>

definition uint8_to_le_bytes :: "8 word \<Rightarrow> nat \<times> byte list" where
  "uint8_to_le_bytes v = (1, [v])"

definition uint16_to_le_bytes :: "16 word \<Rightarrow> nat \<times> byte list" where
  "uint16_to_le_bytes v = (2, [ucast v, ucast (drop_bit 8 v)])"

definition uint32_to_le_bytes :: "32 word \<Rightarrow> nat \<times> byte list" where
  "uint32_to_le_bytes v =
     (4, [ucast v, ucast (drop_bit 8 v), ucast (drop_bit 16 v), ucast (drop_bit 24 v)])"

definition uint64_to_le_bytes :: "64 word \<Rightarrow> nat \<times> byte list" where
  "uint64_to_le_bytes v =
     (8, [ucast v, ucast (drop_bit 8 v), ucast (drop_bit 16 v), ucast (drop_bit 24 v),
          ucast (drop_bit 32 v), ucast (drop_bit 40 v), ucast (drop_bit 48 v),
          ucast (drop_bit 56 v)])"

definition varint_get_length :: "64 word \<Rightarrow> nat" where
  "varint_get_length v =
     (if v \<le> VI_MAX_8 then 1
      else if v \<le> VI_MAX_16 then 1 + 2
      else if v \<le> VI_MAX_32 then 1 + 4
      else 1 + 8)"

text \<open>
  \<open>varint_to_bytes v bytes_out\<close> stores the encoding at \<open>bytes_out\<close> and returns its
  length: the model returns the length and the bytes stored. The implicit conversion
  of \<open>v\<close> to the helper's parameter type is the \<open>ucast\<close>.
\<close>

definition varint_to_bytes :: "64 word \<Rightarrow> nat \<times> byte list" where
  "varint_to_bytes v =
     (if v \<le> VI_MAX_8 then uint8_to_le_bytes (ucast v)
      else if v \<le> VI_MAX_16 then
        (case uint16_to_le_bytes (ucast v) of (n, bs) \<Rightarrow> (1 + n, VI_TAG_16 # bs))
      else if v \<le> VI_MAX_32 then
        (case uint32_to_le_bytes (ucast v) of (n, bs) \<Rightarrow> (1 + n, VI_TAG_32 # bs))
      else
        (case uint64_to_le_bytes v of (n, bs) \<Rightarrow> (1 + n, VI_TAG_64 # bs)))"

text \<open>
  \<open>varint_from_bytes\<close> is given a pointer only and reads up to nine bytes from it
  without a bounds check. The model is given the bytes that are there; a read past
  their end is the result \<open>None\<close>. Otherwise the result is the decoded value and the
  number of bytes consumed. The macro \<open>b(n)\<close> is \<open>vb bytes n\<close>.
\<close>

definition vb :: "byte list \<Rightarrow> nat \<Rightarrow> 64 word" where
  "vb bytes n = push_bit ((n - 1) * 8) (ucast (bytes ! n))"

definition varint_from_bytes :: "byte list \<Rightarrow> (64 word \<times> nat) option" where
  "varint_from_bytes bytes =
     (if length bytes < 1 then None
      else if bytes ! 0 = VI_TAG_16 then
        (if length bytes < 3 then None
         else Some (vb bytes 2 OR vb bytes 1, 1 + 2))
      else if bytes ! 0 = VI_TAG_32 then
        (if length bytes < 5 then None
         else Some (vb bytes 4 OR vb bytes 3 OR vb bytes 2 OR vb bytes 1, 1 + 4))
      else if bytes ! 0 = VI_TAG_64 then
        (if length bytes < 9 then None
         else Some (vb bytes 8 OR vb bytes 7 OR vb bytes 6 OR vb bytes 5 OR
                    vb bytes 4 OR vb bytes 3 OR vb bytes 2 OR vb bytes 1, 1 + 8))
      else Some (ucast (bytes ! 0), 1))"

section \<open>Confidential commitment lengths\<close>

text \<open>
  Modelled from the spec: the commitment macros of \<open>include/wally_transaction.h\<close>
  are not among the source files. The spec gives the lengths 9 (marker and 8-byte
  value) and 33 (marker and 32 bytes); the prefix bytes are those of the Elements
  wire format.
\<close>

definition WALLY_TX_ASSET_CT_EXPLICIT_PREFIX :: byte where
  "WALLY_TX_ASSET_CT_EXPLICIT_PREFIX = 0x01"
definition WALLY_TX_ASSET_CT_VALUE_PREFIX_A :: byte where
  "WALLY_TX_ASSET_CT_VALUE_PREFIX_A = 0x08"
definition WALLY_TX_ASSET_CT_VALUE_PREFIX_B :: byte where
  "WALLY_TX_ASSET_CT_VALUE_PREFIX_B = 0x09"
definition WALLY_TX_ASSET_CT_ASSET_PREFIX_A :: byte where
  "WALLY_TX_ASSET_CT_ASSET_PREFIX_A = 0x0a"
definition WALLY_TX_ASSET_CT_ASSET_PREFIX_B :: byte where
  "WALLY_TX_ASSET_CT_ASSET_PREFIX_B = 0x0b"
definition WALLY_TX_ASSET_CT_NONCE_PREFIX_A :: byte where
  "WALLY_TX_ASSET_CT_NONCE_PREFIX_A = 0x02"
definition WALLY_TX_ASSET_CT_NONCE_PREFIX_B :: byte where
  "WALLY_TX_ASSET_CT_NONCE_PREFIX_B = 0x03"
definition WALLY_TX_ASSET_CT_VALUE_UNBLIND_LEN :: nat where
  "WALLY_TX_ASSET_CT_VALUE_UNBLIND_LEN = 9"
definition WALLY_TX_ASSET_CT_LEN :: nat where
  "WALLY_TX_ASSET_CT_LEN = 33"

text \<open>
  \<open>get_commitment_len\<close> is given a pointer only. \<open>None\<close> as argument is the \<open>NULL\<close>
  pointer, \<open>Some bs\<close> a pointer to the bytes \<open>bs\<close>. Reading the leading byte of an
  empty buffer is a read past its end, the result \<open>None\<close>.
\<close>

definition get_commitment_len :: "byte list option \<Rightarrow> byte \<Rightarrow> byte \<Rightarrow> nat option" where
  "get_commitment_len bytes prefixA prefixB =
     (case bytes of
        None \<Rightarrow> Some 1
      | Some [] \<Rightarrow> None
      | Some (b # _) \<Rightarrow>
          if b = 0 then Some 1
          else if b = WALLY_TX_ASSET_CT_EXPLICIT_PREFIX then
            (if prefixA = WALLY_TX_ASSET_CT_VALUE_PREFIX_A
             then Some WALLY_TX_ASSET_CT_VALUE_UNBLIND_LEN
             else Some WALLY_TX_ASSET_CT_LEN)
          else if b = prefixA \<or> b = prefixB then Some WALLY_TX_ASSET_CT_LEN
          else Some 0)"

definition confidential_asset_length_from_bytes :: "byte list option \<Rightarrow> nat option" where
  "confidential_asset_length_from_bytes bytes =
     get_commitment_len bytes WALLY_TX_ASSET_CT_ASSET_PREFIX_A WALLY_TX_ASSET_CT_ASSET_PREFIX_B"

definition confidential_value_length_from_bytes :: "byte list option \<Rightarrow> nat option" where
  "confidential_value_length_from_bytes bytes =
     get_commitment_len bytes WALLY_TX_ASSET_CT_VALUE_PREFIX_A WALLY_TX_ASSET_CT_VALUE_PREFIX_B"

definition confidential_nonce_length_from_bytes :: "byte list option \<Rightarrow> nat option" where
  "confidential_nonce_length_from_bytes bytes =
     get_commitment_len bytes WALLY_TX_ASSET_CT_NONCE_PREFIX_A WALLY_TX_ASSET_CT_NONCE_PREFIX_B"

section \<open>Small-integer opcodes and push sizes\<close>

definition script_flags_ok :: "32 word \<Rightarrow> 32 word \<Rightarrow> bool" where
  "script_flags_ok flags extra_flags =
     (if (flags AND NOT (ALL_SCRIPT_HASH_FLAGS OR extra_flags)) \<noteq> 0 \<or>
         (flags AND ALL_SCRIPT_HASH_FLAGS) = ALL_SCRIPT_HASH_FLAGS
      then False else True)"

text \<open>
  \<open>script_is_op_n op allow_zero\<close> is \<open>Some n\<close> where the C function returns true and
  stores \<open>n\<close>, and \<open>None\<close> where it returns false.
\<close>

definition script_is_op_n :: "byte \<Rightarrow> bool \<Rightarrow> nat option" where
  "script_is_op_n op allow_zero =
     (if allow_zero \<and> op = OP_0 then Some 0
      else if op \<ge> OP_1 \<and> op \<le> OP_16 then Some (unat op - unat OP_1 + 1)
      else None)"

definition value_to_op_n :: "64 word \<Rightarrow> 64 word" where
  "value_to_op_n v = (if v = 0 then ucast OP_0 else ucast OP_1 + v - 1)"

definition is_pk_len :: "nat \<Rightarrow> bool" where
  "is_pk_len bytes_len \<longleftrightarrow>
     bytes_len = EC_PUBLIC_KEY_LEN \<or> bytes_len = EC_PUBLIC_KEY_UNCOMPRESSED_LEN"

definition calc_push_opcode_size :: "nat \<Rightarrow> nat" where
  "calc_push_opcode_size n =
     (if n < 76 then 1 else if n < 256 then 2 else if n < 65536 then 3 else 5)"

definition script_get_push_size :: "nat \<Rightarrow> nat" where
  "script_get_push_size n = calc_push_opcode_size n + n"

text \<open>
  \<open>get_push_size bytes get_opcode_size\<close>: the error return is \<open>Inl\<close>, the value
  stored in \<open>size_out\<close> on success is \<open>Inr\<close>. \<open>le16\<close> and \<open>le32\<close> read the
  little-endian length field that follows the opcode.
\<close>

definition le16 :: "byte list \<Rightarrow> nat" where
  "le16 bs = unat (bs ! 0) + 256 * unat (bs ! 1)"

definition le32 :: "byte list \<Rightarrow> nat" where
  "le32 bs = unat (bs ! 0) + 256 * unat (bs ! 1) + 65536 * unat (bs ! 2) +
             16777216 * unat (bs ! 3)"

definition get_push_size :: "byte list \<Rightarrow> bool \<Rightarrow> ret + nat" where
  "get_push_size bytes get_opcode_size =
     (let bytes_len = length bytes in
      if bytes_len = 0 then Inl WALLY_EINVAL
      else
        (case
           (if bytes ! 0 < 76 then Inr (1, unat (bytes ! 0))
            else if bytes ! 0 = OP_PUSHDATA1 then
              (if bytes_len < 2 then Inl WALLY_EINVAL else Inr (2, unat (bytes ! 1)))
            else if bytes ! 0 = OP_PUSHDATA2 then
              (if bytes_len < 3 then Inl WALLY_EINVAL else Inr (3, le16 (drop 1 bytes)))
            else if bytes ! 0 = OP_PUSHDATA4 then
              (if bytes_len < 5 then Inl WALLY_EINVAL else Inr (5, le32 (drop 1 bytes)))
            else Inl WALLY_EINVAL)
         of
           Inl e \<Rightarrow> Inl e
         | Inr (opcode_len, size_out) \<Rightarrow>
             if bytes_len < opcode_len + size_out then Inl WALLY_EINVAL
             else if get_opcode_size then Inr opcode_len
             else Inr size_out))"

definition script_get_push_size_from_bytes :: "byte list \<Rightarrow> ret + nat" where
  "script_get_push_size_from_bytes bytes = get_push_size bytes False"

definition script_get_push_opcode_size_from_bytes :: "byte list \<Rightarrow> ret + nat" where
  "script_get_push_opcode_size_from_bytes bytes = get_push_size bytes True"

section \<open>Script-integer codec\<close>

text \<open>
  The \<open>while (v)\<close> loop of \<open>scriptint_get_length\<close> and of \<open>scriptint_to_bytes\<close>: the
  state is the remaining value, what has been produced so far, and \<open>last\<close> (here \<open>lst\<close>).
\<close>

function scriptint_get_length_loop :: "64 word \<Rightarrow> nat \<Rightarrow> byte \<Rightarrow> nat \<times> byte" where
  "scriptint_get_length_loop v len lst =
     (if v \<noteq> 0
      then scriptint_get_length_loop (drop_bit 8 v) (len + 1) (ucast (v AND 0xff))
      else (len, lst))"
  by pat_completeness auto
termination
proof (relation "measure (\<lambda>(v, len, lst). unat v)")
  show "wf (measure (\<lambda>(v, len, lst). unat v))" by simp
next
  fix v :: "64 word" and len :: nat and lst :: byte
  assume "v \<noteq> 0"
  hence "0 < unat v" by (simp add: unat_gt_0)
  hence "unat v div 2 ^ 8 < unat v" by simp
  moreover have "unat (drop_bit 8 v) = drop_bit 8 (unat v)" by (rule unat_drop_bit_eq)
  moreover have "drop_bit 8 (unat v) = unat v div 2 ^ 8" by (rule drop_bit_eq_div)
  ultimately have "unat (drop_bit 8 v) < unat v" by simp
  thus "((drop_bit 8 v, len + 1, ucast (v AND 0xff)), (v, len, lst))
          \<in> measure (\<lambda>(v, len, lst). unat v)"
    by simp
qed

declare scriptint_get_length_loop.simps [simp del]

definition scriptint_get_length :: "64 word \<Rightarrow> nat" where
  "scriptint_get_length signed_v =
     (let v = (if signed_v <s 0 then - signed_v else signed_v) in
      case scriptint_get_length_loop v 0 0 of
        (len, lst) \<Rightarrow> len + (if lst AND 0x80 \<noteq> 0 then 1 else 0))"

function scriptint_to_bytes_loop :: "64 word \<Rightarrow> byte list \<Rightarrow> byte \<Rightarrow> byte list \<times> byte" where
  "scriptint_to_bytes_loop v out lst =
     (if v \<noteq> 0
      then scriptint_to_bytes_loop (drop_bit 8 v) (out @ [ucast (v AND 0xff)]) (ucast (v AND 0xff))
      else (out, lst))"
  by pat_completeness auto
termination
proof (relation "measure (\<lambda>(v, out, lst). unat v)")
  show "wf (measure (\<lambda>(v, out, lst). unat v))" by simp
next
  fix v :: "64 word" and out :: "byte list" and lst :: byte
  assume "v \<noteq> 0"
  hence "0 < unat v" by (simp add: unat_gt_0)
  hence "unat v div 2 ^ 8 < unat v" by simp
  moreover have "unat (drop_bit 8 v) = drop_bit 8 (unat v)" by (rule unat_drop_bit_eq)
  moreover have "drop_bit 8 (unat v) = unat v div 2 ^ 8" by (rule drop_bit_eq_div)
  ultimately have "unat (drop_bit 8 v) < unat v" by simp
  thus "((drop_bit 8 v, out @ [ucast (v AND 0xff)], ucast (v AND 0xff)), (v, out, lst))
          \<in> measure (\<lambda>(v, out, lst). unat v)"
    by simp
qed

declare scriptint_to_bytes_loop.simps [simp del]

text \<open>
  \<open>scriptint_to_bytes signed_v\<close> returns the length and the bytes stored at
  \<open>bytes_out\<close>. \<open>bytes_out[-1] |= 0x80\<close> updates the byte stored last; it is reached
  with \<open>signed_v < 0\<close> only, where the loop has stored at least one byte.
\<close>

definition scriptint_to_bytes :: "64 word \<Rightarrow> nat \<times> byte list" where
  "scriptint_to_bytes signed_v =
     (let v = (if signed_v <s 0 then - signed_v else signed_v) in
      case scriptint_to_bytes_loop v [] 0 of
        (out, lst) \<Rightarrow>
          if lst AND 0x80 \<noteq> 0 then
            (length out + 1, out @ [if signed_v <s 0 then 0x80 else 0])
          else if signed_v <s 0 then
            (length out, out[length out - 1 := (out ! (length out - 1)) OR 0x80])
          else (length out, out))"

text \<open>
  \<open>scriptint_from_bytes bytes len value_out\<close>, with \<open>len\<close> the length of \<open>bytes\<close>:
  the result is the return code and the value left in \<open>value_out\<close>. The \<open>for\<close> loop
  is the fold over \<open>i = 0, \<dots>, bytes[0] - 1\<close> of the pair \<open>(value_out, mask)\<close>, here \<open>(value, msk)\<close>.
\<close>

definition scriptint_from_bytes :: "byte list \<Rightarrow> ret \<times> 64 word" where
  "scriptint_from_bytes bytes =
     (if length bytes < 1 \<or> length bytes \<le> unat (bytes ! 0) \<or> bytes ! 0 > 4
      then (WALLY_EINVAL, 0)
      else
        (case fold (\<lambda>i (value, msk).
                      (value OR push_bit (8 * i) (ucast (bytes ! (i + 1))), push_bit 8 msk))
                [0 ..< unat (bytes ! 0)] (0, 0x80 :: 64 word)
         of (value, msk) \<Rightarrow>
           if (bytes ! unat (bytes ! 0)) AND 0x80 \<noteq> 0
           then (WALLY_OK, - (value XOR signed_drop_bit 8 msk))
           else (WALLY_OK, value)))"

section \<open>ScriptPubkey classifier\<close>

text \<open>
  The matchers index the script only after they have checked its length, so every
  \<open>bytes ! i\<close> below that decides a result is a read inside the buffer. Advancing the
  pointer by \<open>n\<close> (and reducing \<open>bytes_len\<close> by \<open>n\<close>) is \<open>drop n\<close>.
\<close>

definition scriptpubkey_is_op_return :: "byte list \<Rightarrow> bool" where
  "scriptpubkey_is_op_return bytes \<longleftrightarrow> length bytes \<noteq> 0 \<and> bytes ! 0 = OP_RETURN"

definition scriptpubkey_is_p2pkh :: "byte list \<Rightarrow> bool" where
  "scriptpubkey_is_p2pkh bytes \<longleftrightarrow>
     length bytes = WALLY_SCRIPTPUBKEY_P2PKH_LEN \<and>
     bytes ! 0 = OP_DUP \<and> bytes ! 1 = OP_HASH160 \<and>
     bytes ! 2 = 20 \<and>
     bytes ! 23 = OP_EQUALVERIFY \<and>
     bytes ! 24 = OP_CHECKSIG"

definition scriptpubkey_is_p2sh :: "byte list \<Rightarrow> bool" where
  "scriptpubkey_is_p2sh bytes \<longleftrightarrow>
     length bytes = WALLY_SCRIPTPUBKEY_P2SH_LEN \<and>
     bytes ! 0 = OP_HASH160 \<and>
     bytes ! 1 = 20 \<and>
     bytes ! 22 = OP_EQUAL"

definition scriptpubkey_is_p2wpkh :: "byte list \<Rightarrow> bool" where
  "scriptpubkey_is_p2wpkh bytes \<longleftrightarrow>
     length bytes = WALLY_SCRIPTPUBKEY_P2WPKH_LEN \<and>
     bytes ! 0 = OP_0 \<and>
     bytes ! 1 = 20"

definition scriptpubkey_is_p2wsh :: "byte list \<Rightarrow> bool" where
  "scriptpubkey_is_p2wsh bytes \<longleftrightarrow>
     length bytes = WALLY_SCRIPTPUBKEY_P2WSH_LEN \<and>
     bytes ! 0 = OP_0 \<and>
     bytes ! 1 = 32"

definition scriptpubkey_is_p2tr :: "byte list \<Rightarrow> bool" where
  "scriptpubkey_is_p2tr bytes \<longleftrightarrow>
     length bytes = WALLY_SCRIPTPUBKEY_P2TR_LEN \<and>
     bytes ! 0 = OP_1 \<and>
     bytes ! 1 = 32"

text \<open>
  The \<open>for\<close> loop of \<open>scriptpubkey_is_multisig\<close>, by the number of pushes still to
  be read (\<open>n_pushes - i\<close>) and the rest of the script; its result is the function's.
\<close>

fun multisig_pushes :: "nat \<Rightarrow> byte list \<Rightarrow> bool" where
  "multisig_pushes 0 bytes = (length bytes = 2)"
| "multisig_pushes (Suc k) bytes =
     (case get_push_size bytes True of
        Inl _ \<Rightarrow> False
      | Inr n_op \<Rightarrow>
          (case get_push_size bytes False of
             Inl _ \<Rightarrow> False
           | Inr n_push \<Rightarrow>
               if \<not> is_pk_len n_push \<or> length bytes < n_op + n_push + 2 then False
               else multisig_pushes k (drop (n_op + n_push) bytes)))"

definition scriptpubkey_is_multisig :: "byte list \<Rightarrow> bool" where
  "scriptpubkey_is_multisig bytes =
     (let bytes_len = length bytes; min_1of1_len = 1 + 1 + 33 + 1 + 1 in
      if bytes_len < min_1of1_len \<or> script_is_op_n (bytes ! 0) False = None \<or>
         bytes ! (bytes_len - 1) \<noteq> OP_CHECKMULTISIG
      then False
      else
        (case script_is_op_n (bytes ! (bytes_len - 2)) False of
           None \<Rightarrow> False
         | Some n_pushes \<Rightarrow> multisig_pushes n_pushes (drop 1 bytes)))"

text \<open>
  The two CSV matchers return their boolean result and the value left in
  \<open>csv_blocks\<close>. The comparisons of \<open>blocks\<close>, an \<open>int64_t\<close>, are signed.
\<close>

definition scriptpubkey_is_csv_2of2_then_1 :: "byte list \<Rightarrow> bool \<times> 32 word" where
  "scriptpubkey_is_csv_2of2_then_1 bytes =
     (let min_len = 9 + 2 * (EC_PUBLIC_KEY_LEN + 1) + 2; bytes_len = length bytes in
      if bytes_len < min_len \<or> bytes_len > min_len + 2 then (False, 0)
      else if bytes ! 0 \<noteq> OP_DEPTH \<or> bytes ! 1 \<noteq> OP_1SUB \<or>
              bytes ! 2 \<noteq> OP_IF \<or> unat (bytes ! 3) \<noteq> EC_PUBLIC_KEY_LEN \<or>
              bytes ! (EC_PUBLIC_KEY_LEN + 4) \<noteq> OP_CHECKSIGVERIFY \<or>
              bytes ! (EC_PUBLIC_KEY_LEN + 5) \<noteq> OP_ELSE
      then (False, 0)
      else
        (let bytes1 = drop (EC_PUBLIC_KEY_LEN + 6) bytes in
         case scriptint_from_bytes bytes1 of
           (r, blocks) \<Rightarrow>
             if r \<noteq> WALLY_OK then (False, 0)
             else if blocks <s 17 \<or> 65535 <s blocks then (False, 0)
             else
               (let bytes2 = drop (unat (bytes1 ! 0) + 1) bytes1 in
                if length bytes2 < 3 + (EC_PUBLIC_KEY_LEN + 1) + 1 then (False, 0)
                else if bytes2 ! 0 \<noteq> OP_CHECKSEQUENCEVERIFY \<or> bytes2 ! 1 \<noteq> OP_DROP \<or>
                        bytes2 ! 2 \<noteq> OP_ENDIF \<or> unat (bytes2 ! 3) \<noteq> EC_PUBLIC_KEY_LEN \<or>
                        bytes2 ! (EC_PUBLIC_KEY_LEN + 4) \<noteq> OP_CHECKSIG
                then (False, 0)
                else (True, ucast blocks))))"

definition scriptpubkey_is_csv_2of2_then_1_opt :: "byte list \<Rightarrow> bool \<times> 32 word" where
  "scriptpubkey_is_csv_2of2_then_1_opt bytes =
     (let min_len = 6 + 2 * (EC_PUBLIC_KEY_LEN + 1) + 2; bytes_len = length bytes in
      if bytes_len < min_len \<or> bytes_len > min_len + 2 then (False, 0)
      else if unat (bytes ! 0) \<noteq> EC_PUBLIC_KEY_LEN \<or>
              bytes ! (EC_PUBLIC_KEY_LEN + 1) \<noteq> OP_CHECKSIGVERIFY \<or>
              unat (bytes ! (EC_PUBLIC_KEY_LEN + 2)) \<noteq> EC_PUBLIC_KEY_LEN
      then (False, 0)
      else
        (let bytes1 = drop (EC_PUBLIC_KEY_LEN * 2 + 3) bytes in
         if bytes1 ! 0 \<noteq> OP_CHECKSIG \<or> bytes1 ! 1 \<noteq> OP_IFDUP \<or> bytes1 ! 2 \<noteq> OP_NOTIF
         then (False, 0)
         else
           (let bytes2 = drop 3 bytes1 in
            case scriptint_from_bytes bytes2 of
              (r, blocks) \<Rightarrow>
                if r \<noteq> WALLY_OK then (False, 0)
                else if blocks <s 17 \<or> 65535 <s blocks then (False, 0)
                else
                  (let bytes3 = drop (unat (bytes2 ! 0) + 1) bytes2 in
                   if length bytes3 \<noteq> 2 \<or> bytes3 ! 0 \<noteq> OP_CHECKSEQUENCEVERIFY \<or>
                      bytes3 ! 1 \<noteq> OP_ENDIF
                   then (False, 0)
                   else (True, ucast blocks)))))"

text \<open>
  The public functions return the return code and the value left in the
  out-parameter.
\<close>

definition wally_scriptpubkey_csv_blocks_from_csv_2of2_then_1 ::
  "byte list \<Rightarrow> ret \<times> 32 word" where
  "wally_scriptpubkey_csv_blocks_from_csv_2of2_then_1 bytes =
     (if length bytes = 0 then (WALLY_EINVAL, 0)
      else
        (case scriptpubkey_is_csv_2of2_then_1 bytes of
           (True, v) \<Rightarrow> (WALLY_OK, v)
         | (False, _) \<Rightarrow>
             (case scriptpubkey_is_csv_2of2_then_1_opt bytes of
                (True, v) \<Rightarrow> (WALLY_OK, v)
              | (False, v) \<Rightarrow> (WALLY_EINVAL, v))))"

definition wally_scriptpubkey_get_type :: "byte list \<Rightarrow> ret \<times> script_type" where
  "wally_scriptpubkey_get_type bytes =
     (let bytes_len = length bytes in
      if bytes_len = 0 then (WALLY_EINVAL, WALLY_SCRIPT_TYPE_UNKNOWN)
      else if scriptpubkey_is_op_return bytes then (WALLY_OK, WALLY_SCRIPT_TYPE_OP_RETURN)
      else if scriptpubkey_is_multisig bytes then (WALLY_OK, WALLY_SCRIPT_TYPE_MULTISIG)
      else if fst (scriptpubkey_is_csv_2of2_then_1 bytes)
        then (WALLY_OK, WALLY_SCRIPT_TYPE_CSV2OF2_1)
      else if fst (scriptpubkey_is_csv_2of2_then_1_opt bytes)
        then (WALLY_OK, WALLY_SCRIPT_TYPE_CSV2OF2_1_OPT)
      else if bytes_len = WALLY_SCRIPTPUBKEY_P2PKH_LEN then
        (if scriptpubkey_is_p2pkh bytes then (WALLY_OK, WALLY_SCRIPT_TYPE_P2PKH)
         else (WALLY_OK, WALLY_SCRIPT_TYPE_UNKNOWN))
      else if bytes_len = WALLY_SCRIPTPUBKEY_P2SH_LEN then
        (if scriptpubkey_is_p2sh bytes then (WALLY_OK, WALLY_SCRIPT_TYPE_P2SH)
         else (WALLY_OK, WALLY_SCRIPT_TYPE_UNKNOWN))
      else if bytes_len = WALLY_SCRIPTPUBKEY_P2WPKH_LEN then
        (if scriptpubkey_is_p2wpkh bytes then (WALLY_OK, WALLY_SCRIPT_TYPE_P2WPKH)
         else (WALLY_OK, WALLY_SCRIPT_TYPE_UNKNOWN))
      else if bytes_len = WALLY_SCRIPTPUBKEY_P2WSH_LEN then
        (if scriptpubkey_is_p2wsh bytes then (WALLY_OK, WALLY_SCRIPT_TYPE_P2WSH)
         else if scriptpubkey_is_p2tr bytes then (WALLY_OK, WALLY_SCRIPT_TYPE_P2TR)
         else (WALLY_OK, WALLY_SCRIPT_TYPE_UNKNOWN))
      else (WALLY_OK, WALLY_SCRIPT_TYPE_UNKNOWN))"

section \<open>Builders\<close>

text \<open>
  The hashing, key-tweaking and signature-encoding primitives are external
  collaborators; the model takes them as parameters. Each returns its return code and
  the bytes it stored in its output buffer (20 bytes for HASH160, 32 for SHA-256, a
  33-byte compressed key for the BIP341 tweak). \<open>wally_ec_sig_to_der sig len\<close> is
  given a compact signature and the length \<open>len\<close> of the buffer it may fill; the
  number of bytes it stored is what it leaves in its \<open>written\<close> argument.
\<close>

record ext =
  wally_hash160 :: "byte list \<Rightarrow> ret \<times> byte list"
  wally_sha256 :: "byte list \<Rightarrow> ret \<times> byte list"
  wally_ec_public_key_bip341_tweak :: "byte list \<Rightarrow> 32 word \<Rightarrow> ret \<times> byte list"
  wally_ec_sig_to_der :: "byte list \<Rightarrow> nat \<Rightarrow> ret \<times> byte list"

text \<open>
  A builder is given the output buffer \<open>bytes_out\<close> of \<open>len\<close> bytes, here the list
  of the bytes the buffer holds before the call, \<open>len\<close> being its length. Its result
  is the return code, the value left in \<open>written\<close> and the bytes the buffer holds
  after the call.
  \<open>store buf off bs\<close> is the buffer after \<open>bs\<close> has been stored at offset \<open>off\<close>;
  the builders store only where they have checked that the buffer is long enough.
  \<open>window buf off n\<close> is the \<open>n\<close>-byte buffer at \<open>buf + off\<close> that a builder hands
  to \<open>wally_script_push_from_bytes\<close>.
\<close>

definition store :: "byte list \<Rightarrow> nat \<Rightarrow> byte list \<Rightarrow> byte list" where
  "store buf off bs = take off buf @ bs @ drop (off + length bs) buf"

definition window :: "byte list \<Rightarrow> nat \<Rightarrow> nat \<Rightarrow> byte list" where
  "window buf off n = take n (drop off buf)"

text \<open>The little-endian length fields of \<open>OP_PUSHDATA2\<close> and \<open>OP_PUSHDATA4\<close>.\<close>

definition cpu_to_le16 :: "nat \<Rightarrow> byte list" where
  "cpu_to_le16 n = [of_nat n, of_nat (n div 256)]"

definition cpu_to_le32 :: "nat \<Rightarrow> byte list" where
  "cpu_to_le32 n = [of_nat n, of_nat (n div 256), of_nat (n div 65536), of_nat (n div 16777216)]"

definition wally_script_push_from_bytes ::
  "ext \<Rightarrow> byte list \<Rightarrow> 32 word \<Rightarrow> byte list \<Rightarrow> ret \<times> nat \<times> byte list" where
  "wally_script_push_from_bytes c bytes flags bytes_out =
     (let len = length bytes_out in
      if \<not> script_flags_ok flags 0 \<or> len = 0 then (WALLY_EINVAL, 0, bytes_out)
      else
        (case
           (if flags AND WALLY_SCRIPT_HASH160 \<noteq> 0 then
              (case wally_hash160 c bytes of (r, buff) \<Rightarrow> (r, buff, HASH160_LEN))
            else if flags AND WALLY_SCRIPT_SHA256 \<noteq> 0 then
              (case wally_sha256 c bytes of (r, buff) \<Rightarrow> (r, buff, SHA256_LEN))
            else (WALLY_OK, bytes, length bytes))
         of
           (r, bytes, bytes_len) \<Rightarrow>
             if r \<noteq> WALLY_OK then (r, 0, bytes_out)
             else
               (let opcode_len = calc_push_opcode_size bytes_len;
                    written = bytes_len + opcode_len in
                if len < written then (WALLY_OK, written, bytes_out)
                else
                  (let opcode =
                         (if bytes_len < 76 then [of_nat bytes_len]
                          else if bytes_len < 256 then [OP_PUSHDATA1, of_nat bytes_len]
                          else if bytes_len < 65536 then OP_PUSHDATA2 # cpu_to_le16 bytes_len
                          else OP_PUSHDATA4 # cpu_to_le32 bytes_len)
                   in (WALLY_OK, written, store bytes_out 0 (opcode @ take bytes_len bytes))))))"

definition wally_scriptpubkey_p2pkh_from_bytes ::
  "ext \<Rightarrow> byte list \<Rightarrow> 32 word \<Rightarrow> byte list \<Rightarrow> ret \<times> nat \<times> byte list" where
  "wally_scriptpubkey_p2pkh_from_bytes c bytes flags bytes_out =
     (let bytes_len = length bytes; len = length bytes_out in
      if bytes_len = 0 \<or> \<not> script_flags_ok flags 0 \<or>
         flags AND WALLY_SCRIPT_SHA256 \<noteq> 0 \<or> len = 0
      then (WALLY_EINVAL, 0, bytes_out)
      else if len < WALLY_SCRIPTPUBKEY_P2PKH_LEN
      then (WALLY_OK, WALLY_SCRIPTPUBKEY_P2PKH_LEN, bytes_out)
      else if (if flags AND WALLY_SCRIPT_HASH160 \<noteq> 0
               then bytes_len \<noteq> EC_PUBLIC_KEY_LEN \<and> bytes_len \<noteq> EC_PUBLIC_KEY_UNCOMPRESSED_LEN
               else bytes_len \<noteq> HASH160_LEN)
      then (WALLY_EINVAL, 0, bytes_out)
      else
        (let out1 = store bytes_out 0 [OP_DUP, OP_HASH160] in
         case wally_script_push_from_bytes c bytes flags (window out1 2 (len - 4)) of
           (r, written, sub) \<Rightarrow>
             (let out2 = store out1 2 sub in
              if r = WALLY_OK
              then (WALLY_OK, WALLY_SCRIPTPUBKEY_P2PKH_LEN,
                    store out2 (WALLY_SCRIPTPUBKEY_P2PKH_LEN - 2) [OP_EQUALVERIFY, OP_CHECKSIG])
              else (r, written, out2))))"

definition wally_scriptpubkey_op_return_from_bytes ::
  "ext \<Rightarrow> byte list \<Rightarrow> 32 word \<Rightarrow> byte list \<Rightarrow> ret \<times> nat \<times> byte list" where
  "wally_scriptpubkey_op_return_from_bytes c bytes flags bytes_out =
     (let bytes_len = length bytes; len = length bytes_out in
      if bytes_len > WALLY_MAX_OP_RETURN_LEN \<or> flags \<noteq> 0 \<or> len = 0
      then (WALLY_EINVAL, 0, bytes_out)
      else
        (case wally_script_push_from_bytes c bytes flags (window bytes_out 1 (len - 1)) of
           (r, written, sub) \<Rightarrow>
             (let out1 = store bytes_out 1 sub in
              if r = WALLY_OK then (WALLY_OK, written + 1, store out1 0 [OP_RETURN])
              else (r, written, out1))))"

definition wally_scriptpubkey_p2sh_from_bytes ::
  "ext \<Rightarrow> byte list \<Rightarrow> 32 word \<Rightarrow> byte list \<Rightarrow> ret \<times> nat \<times> byte list" where
  "wally_scriptpubkey_p2sh_from_bytes c bytes flags bytes_out =
     (let bytes_len = length bytes; len = length bytes_out in
      if bytes_len = 0 \<or> flags AND NOT WALLY_SCRIPT_HASH160 \<noteq> 0 \<or> len = 0
      then (WALLY_EINVAL, 0, bytes_out)
      else if \<not> (flags AND WALLY_SCRIPT_HASH160 \<noteq> 0) \<and> bytes_len \<noteq> HASH160_LEN
      then (WALLY_EINVAL, 0, bytes_out)
      else if len < WALLY_SCRIPTPUBKEY_P2SH_LEN
      then (WALLY_OK, WALLY_SCRIPTPUBKEY_P2SH_LEN, bytes_out)
      else
        (let out1 = store bytes_out 0 [OP_HASH160] in
         case wally_script_push_from_bytes c bytes flags (window out1 1 (len - 2)) of
           (r, written, sub) \<Rightarrow>
             (let out2 = store out1 1 sub in
              if r = WALLY_OK
              then (WALLY_OK, WALLY_SCRIPTPUBKEY_P2SH_LEN,
                    store out2 (WALLY_SCRIPTPUBKEY_P2SH_LEN - 1) [OP_EQUAL])
              else (r, written, out2))))"

text \<open>
  \<open>memcmp\<close> and \<open>qsort\<close> are the C library's. \<open>memcmp a b n\<close> compares the first
  \<open>n\<close> bytes as unsigned values; the multisig builder calls it on two 33-byte keys
  with \<open>n = 33\<close>, and the third equation (a buffer shorter than \<open>n\<close>) is not reached.
  \<open>qsort base nmemb size compar\<close> sorts the \<open>nmemb\<close> elements of \<open>size\<close> bytes of
  the array \<open>base\<close> in ascending order under \<open>compar\<close>: the model splits the array
  into its elements (\<open>elements\<close>), sorts them by insertion and joins them again.
\<close>

fun memcmp :: "byte list \<Rightarrow> byte list \<Rightarrow> nat \<Rightarrow> int" where
  "memcmp a b 0 = 0"
| "memcmp (x # a) (y # b) (Suc n) =
     (if x = y then memcmp a b n else int (unat x) - int (unat y))"
| "memcmp _ _ (Suc n) = 0"

definition pubkey_compare :: "byte list \<Rightarrow> byte list \<Rightarrow> int" where
  "pubkey_compare a b = memcmp a b EC_PUBLIC_KEY_LEN"

fun elements :: "byte list \<Rightarrow> nat \<Rightarrow> nat \<Rightarrow> byte list list" where
  "elements base 0 sz = []"
| "elements base (Suc nmemb) sz = take sz base # elements (drop sz base) nmemb sz"

fun insert_by :: "('a \<Rightarrow> 'a \<Rightarrow> int) \<Rightarrow> 'a \<Rightarrow> 'a list \<Rightarrow> 'a list" where
  "insert_by compar x [] = [x]"
| "insert_by compar x (y # ys) =
     (if compar x y \<le> 0 then x # y # ys else y # insert_by compar x ys)"

definition qsort ::
  "byte list \<Rightarrow> nat \<Rightarrow> nat \<Rightarrow> (byte list \<Rightarrow> byte list \<Rightarrow> int) \<Rightarrow> byte list" where
  "qsort base nmemb sz compar =
     concat (foldr (insert_by compar) (elements base nmemb sz) []) @
     drop (nmemb * sz) base"

text \<open>
  The emitting loop of the multisig builder stores, for \<open>i = 0, \<dots>, n_pubkeys - 1\<close>,
  the push opcode and the \<open>i\<close>-th key of \<open>pubkey_bytes\<close>.
\<close>

definition wally_scriptpubkey_multisig_from_bytes ::
  "byte list \<Rightarrow> 32 word \<Rightarrow> 32 word \<Rightarrow> byte list \<Rightarrow> ret \<times> nat \<times> byte list" where
  "wally_scriptpubkey_multisig_from_bytes bytes threshold flags bytes_out =
     (let bytes_len = length bytes; len = length bytes_out;
          n_pubkeys = bytes_len div EC_PUBLIC_KEY_LEN;
          script_len = 3 + (n_pubkeys * (EC_PUBLIC_KEY_LEN + 1)) in
      if bytes_len = 0 \<or> bytes_len mod EC_PUBLIC_KEY_LEN \<noteq> 0 \<or>
         n_pubkeys < 1 \<or> n_pubkeys > 15 \<or> threshold < 1 \<or> threshold > 15 \<or>
         unat threshold > n_pubkeys \<or> flags AND NOT WALLY_SCRIPT_MULTISIG_SORTED \<noteq> 0 \<or>
         len = 0
      then (WALLY_EINVAL, 0, bytes_out)
      else if len < script_len then (WALLY_OK, script_len, bytes_out)
      else
        (let pubkey_bytes =
               (if flags AND WALLY_SCRIPT_MULTISIG_SORTED \<noteq> 0
                then qsort bytes n_pubkeys EC_PUBLIC_KEY_LEN pubkey_compare
                else bytes)
         in (WALLY_OK, script_len,
             store bytes_out 0
               ([ucast (value_to_op_n (ucast threshold))] @
                concat (map (\<lambda>i. of_nat EC_PUBLIC_KEY_LEN #
                                 take EC_PUBLIC_KEY_LEN (drop (i * EC_PUBLIC_KEY_LEN) pubkey_bytes))
                            [0 ..< n_pubkeys]) @
                [ucast (value_to_op_n (of_nat n_pubkeys)), OP_CHECKMULTISIG]))))"

text \<open>
  In the CSV builders \<open>bytes_out += scriptint_to_bytes(csv_blocks, bytes_out)\<close> stores
  the script integer and advances by the returned length, which is the number of
  bytes stored.
\<close>

definition wally_scriptpubkey_csv_2of2_then_1_from_bytes ::
  "byte list \<Rightarrow> 32 word \<Rightarrow> 32 word \<Rightarrow> byte list \<Rightarrow> ret \<times> nat \<times> byte list" where
  "wally_scriptpubkey_csv_2of2_then_1_from_bytes bytes csv_blocks flags bytes_out =
     (let bytes_len = length bytes; len = length bytes_out;
          csv_len = scriptint_get_length (ucast csv_blocks);
          script_len = 2 * (EC_PUBLIC_KEY_LEN + 1) + 9 + 1 + csv_len in
      if bytes_len \<noteq> 2 * EC_PUBLIC_KEY_LEN \<or> csv_blocks < 17 \<or> csv_blocks > 0xffff \<or>
         flags \<noteq> 0
      then (WALLY_EINVAL, 0, bytes_out)
      else if len < script_len then (WALLY_OK, script_len, bytes_out)
      else
        (WALLY_OK, script_len,
         store bytes_out 0
           ([OP_DEPTH, OP_1SUB, OP_IF, of_nat EC_PUBLIC_KEY_LEN] @
            take EC_PUBLIC_KEY_LEN bytes @
            [OP_CHECKSIGVERIFY, OP_ELSE, of_nat csv_len AND 0xff] @
            snd (scriptint_to_bytes (ucast csv_blocks)) @
            [OP_CHECKSEQUENCEVERIFY, OP_DROP, OP_ENDIF, of_nat EC_PUBLIC_KEY_LEN] @
            take EC_PUBLIC_KEY_LEN (drop EC_PUBLIC_KEY_LEN bytes) @
            [OP_CHECKSIG])))"

definition wally_scriptpubkey_csv_2of2_then_1_from_bytes_opt ::
  "byte list \<Rightarrow> 32 word \<Rightarrow> 32 word \<Rightarrow> byte list \<Rightarrow> ret \<times> nat \<times> byte list" where
  "wally_scriptpubkey_csv_2of2_then_1_from_bytes_opt bytes csv_blocks flags bytes_out =
     (let bytes_len = length bytes; len = length bytes_out;
          csv_len = scriptint_get_length (ucast csv_blocks);
          script_len = 2 * (EC_PUBLIC_KEY_LEN + 1) + 6 + 1 + csv_len in
      if bytes_len \<noteq> 2 * EC_PUBLIC_KEY_LEN \<or> csv_blocks < 17 \<or> csv_blocks > 0xffff \<or>
         flags \<noteq> 0
      then (WALLY_EINVAL, 0, bytes_out)
      else if len < script_len then (WALLY_OK, script_len, bytes_out)
      else
        (WALLY_OK, script_len,
         store bytes_out 0
           ([of_nat EC_PUBLIC_KEY_LEN] @
            take EC_PUBLIC_KEY_LEN (drop EC_PUBLIC_KEY_LEN bytes) @
            [OP_CHECKSIGVERIFY, of_nat EC_PUBLIC_KEY_LEN] @
            take EC_PUBLIC_KEY_LEN bytes @
            [OP_CHECKSIG, OP_IFDUP, OP_NOTIF, of_nat csv_len AND 0xff] @
            snd (scriptint_to_bytes (ucast csv_blocks)) @
            [OP_CHECKSEQUENCEVERIFY, OP_ENDIF])))"

text \<open>
  In the witness-program builder the version opcode is stored before the push is
  attempted, and with \<open>WALLY_SCRIPT_AS_PUSH\<close> the script starts one byte into the
  buffer (\<open>off = 1\<close>).
\<close>

definition wally_witness_program_from_bytes_and_version ::
  "ext \<Rightarrow> byte list \<Rightarrow> 32 word \<Rightarrow> 32 word \<Rightarrow> byte list \<Rightarrow> ret \<times> nat \<times> byte list" where
  "wally_witness_program_from_bytes_and_version c bytes version flags bytes_out =
     (let bytes_len = length bytes; len = length bytes_out;
          v1plus_max_size = WALLY_WITNESSSCRIPT_MAX_LEN - 2 in
      if version > 16 \<or> \<not> script_flags_ok flags WALLY_SCRIPT_AS_PUSH \<or> len = 0
      then (WALLY_EINVAL, 0, bytes_out)
      else if (if flags AND ALL_SCRIPT_HASH_FLAGS \<noteq> 0 then bytes_len = 0
               else if version = 0 \<and> bytes_len \<noteq> HASH160_LEN \<and> bytes_len \<noteq> SHA256_LEN
                 then True
               else bytes_len < 2 \<or> bytes_len > v1plus_max_size)
      then (WALLY_EINVAL, 0, bytes_out)
      else if flags AND WALLY_SCRIPT_AS_PUSH \<noteq> 0 \<and> len < 2
      then (WALLY_EINVAL, 0, bytes_out)
      else
        (let off = (if flags AND WALLY_SCRIPT_AS_PUSH \<noteq> 0 then 1 else 0);
             out1 = store bytes_out off [ucast (value_to_op_n (ucast version))] in
         case wally_script_push_from_bytes c bytes (flags AND NOT WALLY_SCRIPT_AS_PUSH)
                (window out1 (off + 1) (len - off - 1)) of
           (r, written, sub) \<Rightarrow>
             (let out2 = store out1 (off + 1) sub in
              if r = WALLY_OK then
                (if flags AND WALLY_SCRIPT_AS_PUSH \<noteq> 0
                 then (WALLY_OK, written + 1 + 1, store out2 0 [of_nat (written + 1) AND 0xff])
                 else (WALLY_OK, written + 1, out2))
              else (r, written, out2))))"

definition wally_witness_program_from_bytes ::
  "ext \<Rightarrow> byte list \<Rightarrow> 32 word \<Rightarrow> byte list \<Rightarrow> ret \<times> nat \<times> byte list" where
  "wally_witness_program_from_bytes c bytes flags bytes_out =
     wally_witness_program_from_bytes_and_version c bytes 0 flags bytes_out"

text \<open>
  Modelled from the spec: \<open>EC_FLAG_ELEMENTS\<close> of \<open>include/wally_crypto.h\<close> is not
  among the source files; it is a single flag bit. Whether the library is built with
  \<open>BUILD_ELEMENTS\<close> is the parameter \<open>build_elements\<close>.
\<close>

definition EC_FLAG_ELEMENTS :: "32 word" where "EC_FLAG_ELEMENTS = 0x10"

definition wally_scriptpubkey_p2tr_from_bytes ::
  "ext \<Rightarrow> bool \<Rightarrow> byte list \<Rightarrow> 32 word \<Rightarrow> byte list \<Rightarrow> ret \<times> nat \<times> byte list" where
  "wally_scriptpubkey_p2tr_from_bytes c build_elements bytes flags bytes_out =
     (let len = length bytes_out in
      if (if build_elements then flags AND NOT EC_FLAG_ELEMENTS \<noteq> 0 else flags \<noteq> 0)
      then (WALLY_EINVAL, 0, bytes_out)
      else if len < WALLY_SCRIPTPUBKEY_P2TR_LEN
      then (WALLY_OK, WALLY_SCRIPTPUBKEY_P2TR_LEN, bytes_out)
      else
        (case
           (if length bytes = EC_PUBLIC_KEY_LEN then
              (case wally_ec_public_key_bip341_tweak c bytes flags of
                 (r, tweaked) \<Rightarrow> (r, drop 1 tweaked, EC_XONLY_PUBLIC_KEY_LEN))
            else (WALLY_OK, bytes, length bytes))
         of
           (r, bytes, bytes_len) \<Rightarrow>
             if r \<noteq> WALLY_OK then (r, 0, bytes_out)
             else if bytes_len \<noteq> EC_XONLY_PUBLIC_KEY_LEN then (WALLY_EINVAL, 0, bytes_out)
             else
               (WALLY_OK, WALLY_SCRIPTPUBKEY_P2TR_LEN,
                store bytes_out 0 ([OP_1, of_nat bytes_len] @ take bytes_len bytes))))"

subsection \<open>ScriptSig builders\<close>

text \<open>
  Modelled from the spec: \<open>EC_SIGNATURE_LEN\<close> and \<open>EC_SIGNATURE_DER_MAX_LEN\<close> of
  \<open>include/wally_crypto.h\<close> are not among the source files; a compact signature has
  64 bytes and its DER encoding at most 72, the values of the library's public header.
  \<open>wally_clear\<close> of \<open>internal.h\<close> overwrites the bytes it is given with zeros.
\<close>

definition EC_SIGNATURE_LEN :: nat where "EC_SIGNATURE_LEN = 64"
definition EC_SIGNATURE_DER_MAX_LEN :: nat where "EC_SIGNATURE_DER_MAX_LEN = 72"

definition DER_AND_HASH_MAX_LEN :: nat where
  "DER_AND_HASH_MAX_LEN = EC_SIGNATURE_DER_MAX_LEN + 1"

definition wally_clear :: "byte list \<Rightarrow> nat \<Rightarrow> byte list" where
  "wally_clear buf n = store buf 0 (replicate n 0)"

text \<open>
  The P2PKH scriptSig from a DER signature: the push of the signature at the start of
  the buffer, then the push of the public key \<open>n\<close> bytes further on, \<open>n\<close> being the
  length the first push reported. The second push is reached only when the buffer
  holds both pushes, so that \<open>len - n\<close> does not wrap.
\<close>

definition wally_scriptsig_p2pkh_from_der ::
  "ext \<Rightarrow> byte list \<Rightarrow> byte list \<Rightarrow> byte list \<Rightarrow> ret \<times> nat \<times> byte list" where
  "wally_scriptsig_p2pkh_from_der c pub_key sig bytes_out =
     (let pub_key_len = length pub_key; sig_len = length sig; len = length bytes_out in
      if \<not> is_pk_len pub_key_len \<or> sig_len = 0 \<or> sig_len > EC_SIGNATURE_DER_MAX_LEN + 1
      then (WALLY_EINVAL, 0, bytes_out)
      else if len < script_get_push_size pub_key_len + script_get_push_size sig_len
      then (WALLY_EINVAL, 0, bytes_out)
      else
        (case wally_script_push_from_bytes c sig 0 bytes_out of
           (r, n, out1) \<Rightarrow>
             if r = WALLY_OK then
               (case wally_script_push_from_bytes c pub_key 0 (window out1 n (len - n)) of
                  (r2, written, sub) \<Rightarrow>
                    (let out2 = store out1 n sub in
                     if r2 = WALLY_OK then (WALLY_OK, written + n, out2)
                     else (r2, written, wally_clear out2 n)))
             else (r, n, out1)))"

text \<open>
  The P2PKH scriptSig from a compact signature: the signature is DER-encoded into a
  local buffer of \<open>EC_SIGNATURE_DER_MAX_LEN + 1\<close> bytes and the sighash byte is stored
  after the encoding.
\<close>

definition wally_scriptsig_p2pkh_from_sig ::
  "ext \<Rightarrow> byte list \<Rightarrow> byte list \<Rightarrow> 32 word \<Rightarrow> byte list \<Rightarrow> ret \<times> nat \<times> byte list" where
  "wally_scriptsig_p2pkh_from_sig c pub_key sig sighash bytes_out =
     (if sighash AND 0xffffff00 \<noteq> 0 then (WALLY_EINVAL, 0, bytes_out)
      else
        (case wally_ec_sig_to_der c sig (EC_SIGNATURE_DER_MAX_LEN + 1) of
           (r, der) \<Rightarrow>
             if r = WALLY_OK
             then wally_scriptsig_p2pkh_from_der c pub_key (der @ [ucast (sighash AND 0xff)])
                    bytes_out
             else (r, 0, bytes_out)))"

text \<open>
  The multisig scriptSig. Its first loop encodes the signatures one by one, each
  followed by its sighash byte, and stops at the first that fails: \<open>sigs_to_der\<close>, over
  the signatures paired with their sighash values. Its second loop pushes the
  encodings one after the other, \<open>p\<close> being the offset reached in the buffer:
  \<open>push_sigs\<close>. The loop is reached only when the buffer holds the whole script, so
  that the remaining length does not wrap.
\<close>

fun sigs_to_der :: "ext \<Rightarrow> (byte list \<times> 32 word) list \<Rightarrow> ret + byte list list" where
  "sigs_to_der c [] = Inr []"
| "sigs_to_der c ((sig, sighash_i) # rest) =
     (if sighash_i AND NOT 0xff \<noteq> 0 then Inl WALLY_EINVAL
      else
        (case wally_ec_sig_to_der c sig DER_AND_HASH_MAX_LEN of
           (r, der) \<Rightarrow>
             if r \<noteq> WALLY_OK then Inl r
             else
               (case sigs_to_der c rest of
                  Inl e \<Rightarrow> Inl e
                | Inr ders \<Rightarrow> Inr ((der @ [ucast (sighash_i AND 0xff)]) # ders))))"

fun push_sigs :: "ext \<Rightarrow> byte list list \<Rightarrow> byte list \<Rightarrow> nat \<Rightarrow> ret \<times> nat \<times> byte list" where
  "push_sigs c [] bytes_out p = (WALLY_OK, p, bytes_out)"
| "push_sigs c (der # ders) bytes_out p =
     (case wally_script_push_from_bytes c der 0 (window bytes_out p (length bytes_out - p)) of
        (r, der_len, sub) \<Rightarrow>
          if r \<noteq> WALLY_OK then (r, p, store bytes_out p sub)
          else push_sigs c ders (store bytes_out p sub) (p + der_len))"

definition wally_scriptsig_multisig_from_bytes ::
  "ext \<Rightarrow> byte list \<Rightarrow> byte list \<Rightarrow> 32 word list \<Rightarrow> 32 word \<Rightarrow> byte list \<Rightarrow>
   ret \<times> nat \<times> byte list" where
  "wally_scriptsig_multisig_from_bytes c script bytes sighash flags bytes_out =
     (let script_len = length script; bytes_len = length bytes; sighash_len = length sighash;
          len = length bytes_out; n_sigs = bytes_len div EC_SIGNATURE_LEN in
      if script_len = 0 \<or> bytes_len = 0 \<or> bytes_len mod EC_SIGNATURE_LEN \<noteq> 0 \<or>
         n_sigs < 1 \<or> n_sigs > 15 \<or> sighash_len \<noteq> n_sigs \<or> flags \<noteq> 0
      then (WALLY_EINVAL, 0, bytes_out)
      else
        (case sigs_to_der c (zip (elements bytes n_sigs EC_SIGNATURE_LEN) sighash) of
           Inl e \<Rightarrow> (e, 0, bytes_out)
         | Inr ders \<Rightarrow>
             (let required = sum_list (map (\<lambda>der. script_get_push_size (length der)) ders) +
                             (1 + script_get_push_size script_len) in
              if len < required then (WALLY_OK, required, bytes_out)
              else
                (case push_sigs c ders (store bytes_out 0 [OP_0]) 1 of
                   (r, p, out1) \<Rightarrow>
                     if r \<noteq> WALLY_OK then (r, 0, out1)
                     else
                       (case wally_script_push_from_bytes c script 0 (window out1 p (len - p)) of
                          (r2, der_len0, sub) \<Rightarrow>
                            (let out2 = store out1 p sub in
                             if r2 \<noteq> WALLY_OK then (r2, 0, out2)
                             else if len - p < der_len0 then (WALLY_ERROR, 0, out2)
                             else (WALLY_OK, required, out2)))))))"

section \<open>Peg-in contract script\<close>

text \<open>
  The secp256k1 point operations and HMAC-SHA256 are external collaborators; the
  model takes them as parameters, over any type \<open>'pk\<close> of parsed public keys. An
  operation that returns false in C is \<open>None\<close>; \<open>wally_hmac_sha256 key msg\<close> returns
  its return code and the 32-byte tweak; \<open>pubkey_serialize\<close> returns the bytes stored
  in \<open>ser_pub_key\<close>, \<open>ser_len\<close> being their number.
\<close>

record 'pk secp =
  pubkey_parse :: "byte list \<Rightarrow> 'pk option"
  wally_hmac_sha256 :: "byte list \<Rightarrow> byte list \<Rightarrow> ret \<times> byte list"
  pubkey_tweak_add :: "'pk \<Rightarrow> byte list \<Rightarrow> 'pk option"
  pubkey_serialize :: "'pk \<Rightarrow> byte list option"
  pubkey_create :: "byte list \<Rightarrow> 'pk option"
  pubkey_negate :: "'pk \<Rightarrow> 'pk option"
  pubkey_combine :: "'pk list \<Rightarrow> 'pk option"

text \<open>
  The body of the branch that replaces a key: \<open>key\<close> is the 33 bytes at \<open>p + 1\<close>
  and \<open>q\<close> the output buffer from the current position on (\<open>bytes_len\<close> bytes).
  The result is the return code (\<open>WALLY_OK\<close> to go on) and that buffer afterwards.
\<close>

definition pegin_tweak_key ::
  "ext \<Rightarrow> 'pk secp \<Rightarrow> byte list \<Rightarrow> byte list \<Rightarrow> byte list \<Rightarrow> ret \<times> byte list" where
  "pegin_tweak_key c s script key q =
     (case pubkey_parse s key of
        None \<Rightarrow> (WALLY_ERROR, q)
      | Some pub_key \<Rightarrow>
          (case wally_hmac_sha256 s key script of
             (r, tweak) \<Rightarrow>
               if r \<noteq> WALLY_OK then (r, q)
               else
                 (case pubkey_tweak_add s pub_key tweak of
                    None \<Rightarrow> (WALLY_ERROR, q)
                  | Some pub_key_tweaked \<Rightarrow>
                      (case pubkey_serialize s pub_key_tweaked of
                         None \<Rightarrow> (WALLY_ERROR, q)
                       | Some ser_pub_key \<Rightarrow>
                           (case wally_script_push_from_bytes c ser_pub_key 0 q of
                              (r, push_size, q') \<Rightarrow>
                                if r \<noteq> WALLY_OK then (r, q')
                                else
                                  (case pubkey_create s tweak of
                                     None \<Rightarrow> (WALLY_ERROR, q')
                                   | Some pub_key_from_tweak \<Rightarrow>
                                       (case pubkey_negate s pub_key of
                                          None \<Rightarrow> (WALLY_ERROR, q')
                                        | Some pub_key_neg \<Rightarrow>
                                            (case pubkey_combine s [pub_key_neg, pub_key_tweaked] of
                                               None \<Rightarrow> (WALLY_ERROR, q')
                                             | Some pub_key_combined \<Rightarrow>
                                                 if pub_key_combined \<noteq> pub_key_from_tweak
                                                 then (WALLY_ERROR, q')
                                                 else (WALLY_OK, q')))))))))"

text \<open>
  The loop \<open>for (;;) { \<dots> if (bytes_len == 0) break; }\<close> is entered with
  \<open>bytes_len \<noteq> 0\<close>; the model tests \<open>bytes_len = 0\<close> before each iteration instead of
  after it. \<open>p\<close> is the rest of the redeem script (\<open>bytes_len\<close> its length), \<open>off\<close>
  the offset of \<open>q\<close> in the output buffer \<open>buf\<close>.
\<close>

function pegin_loop ::
  "ext \<Rightarrow> 'pk secp \<Rightarrow> byte list \<Rightarrow> 32 word \<Rightarrow> byte list \<Rightarrow> nat \<Rightarrow> byte list \<Rightarrow> bool \<Rightarrow>
   ret \<times> byte list" where
  "pegin_loop c s script flags p off buf op_else_found =
     (if p = [] then (WALLY_OK, buf)
      else
        (case script_get_push_size_from_bytes p of
           Inr size_out \<Rightarrow>
             (case script_get_push_opcode_size_from_bytes p of
                Inl e \<Rightarrow> (e, buf)
              | Inr opcode_size \<Rightarrow>
                  (let offset_siz = size_out + opcode_size in
                   if length p < offset_siz then (WALLY_EINVAL, buf)
                   else if opcode_size = 1 \<and> size_out = EC_PUBLIC_KEY_LEN \<and> \<not> op_else_found
                   then
                     (case pegin_tweak_key c s script (window p 1 EC_PUBLIC_KEY_LEN)
                             (window buf off (length p)) of
                        (r, q') \<Rightarrow>
                          if r \<noteq> WALLY_OK then (r, store buf off q')
                          else pegin_loop c s script flags (drop offset_siz p) (off + offset_siz)
                                 (store buf off q') op_else_found)
                   else pegin_loop c s script flags (drop offset_siz p) (off + offset_siz)
                          (store buf off (take offset_siz p)) op_else_found))
         | Inl _ \<Rightarrow>
             pegin_loop c s script flags (drop 1 p) (off + 1) (store buf off [p ! 0])
               (if p ! 0 = OP_ELSE \<and> flags = 0 then True else op_else_found)))"
  by pat_completeness auto
termination
proof (relation "measure (\<lambda>(c, s, script, flags, p, off, buf, op_else_found). length p)",
       goal_cases)
  case 1
  show ?case by simp
next
  case (2 c s script flags p off buf op_else_found e)
  then show ?case by simp
next
  case (3 c s script flags p off buf op_else_found size_out opcode_size offset_siz r q')
  have "0 < opcode_size"
    using 3(3) unfolding script_get_push_opcode_size_from_bytes_def get_push_size_def Let_def
    by (auto split: if_splits sum.splits prod.splits)
  with 3(1,4) show ?case by simp
next
  case (4 c s script flags p off buf op_else_found size_out opcode_size offset_siz)
  have "0 < opcode_size"
    using 4(3) unfolding script_get_push_opcode_size_from_bytes_def get_push_size_def Let_def
    by (auto split: if_splits sum.splits prod.splits)
  with 4(1,4) show ?case by simp
qed

declare pegin_loop.simps [simp del]

definition wally_elements_pegin_contract_script_from_bytes ::
  "ext \<Rightarrow> 'pk secp \<Rightarrow> byte list \<Rightarrow> byte list \<Rightarrow> 32 word \<Rightarrow> byte list \<Rightarrow>
   ret \<times> nat \<times> byte list" where
  "wally_elements_pegin_contract_script_from_bytes c s redeem_script script flags bytes_out =
     (let redeem_script_len = length redeem_script; len = length bytes_out in
      if redeem_script_len = 0 \<or> length script = 0 \<or> flags \<noteq> 0 \<or> len \<noteq> redeem_script_len
      then (WALLY_EINVAL, 0, bytes_out)
      else
        (case pegin_loop c s script flags redeem_script 0 bytes_out False of
           (r, buf) \<Rightarrow>
             if r = WALLY_OK then (WALLY_OK, redeem_script_len, buf)
             else (r, 0, buf)))"

section \<open>Auxiliary notions for the proofs\<close>

text \<open>The value of a little-endian byte sequence.\<close>

fun le_val :: "byte list \<Rightarrow> 64 word" where
  "le_val [] = 0"
| "le_val (b # bs) = ucast b OR push_bit 8 (le_val bs)"

text \<open>
  The script shapes the claims speak of, written as the spec describes them:
  the P2PKH template around a hash, a direct push of a key, the small-integer opcode
  \<open>OP_n\<close>, the bare multisig script of a threshold and a list of keys, and the
  CSV-recovery template A around two keys and an encoded delay.
\<close>

definition p2pkh_template :: "byte list \<Rightarrow> byte list" where
  "p2pkh_template h = [OP_DUP, OP_HASH160, 20] @ h @ [OP_EQUALVERIFY, OP_CHECKSIG]"

definition key_push :: "byte list \<Rightarrow> byte list" where
  "key_push key = of_nat (length key) # key"

definition op_n :: "nat \<Rightarrow> byte" where
  "op_n n = OP_1 + of_nat n - 1"

definition multisig_template :: "nat \<Rightarrow> byte list list \<Rightarrow> byte list" where
  "multisig_template m keys =
     [op_n m] @ concat (map key_push keys) @ [op_n (length keys), OP_CHECKMULTISIG]"

definition csv_2of2_then_1_script :: "byte list \<Rightarrow> byte list \<Rightarrow> byte list \<Rightarrow> byte list" where
  "csv_2of2_then_1_script main_key delay recovery_key =
     [OP_DEPTH, OP_1SUB, OP_IF, 33] @ main_key @
     [OP_CHECKSIGVERIFY, OP_ELSE, of_nat (length delay)] @ delay @
     [OP_CHECKSEQUENCEVERIFY, OP_DROP, OP_ENDIF, 33] @ recovery_key @ [OP_CHECKSIG]"

text \<open>
  The push of a data item as the spec describes it: the shortest of the four headers
  (the length itself below 76, then \<open>OP_PUSHDATA1\<close>, \<open>OP_PUSHDATA2\<close>, \<open>OP_PUSHDATA4\<close>
  with a little-endian length of 1, 2 or 4 bytes), followed by the data.
\<close>

definition data_push :: "byte list \<Rightarrow> byte list" where
  "data_push data =
     (let n = length data in
      (if n < 76 then [of_nat n]
       else if n < 256 then [OP_PUSHDATA1, of_nat n]
       else if n < 65536 then [OP_PUSHDATA2, of_nat n, of_nat (n div 256)]
       else [OP_PUSHDATA4, of_nat n, of_nat (n div 256), of_nat (n div 65536),
             of_nat (n div 16777216)]) @ data)"

text \<open>
  The scripts of the remaining builders, written as the spec describes them: P2SH
  around a hash, \<open>OP_RETURN\<close> with its payload, the CSV-recovery template B, a witness
  program behind its version opcode (wrapped in one more push when asked for), the
  taproot script around an x-only key, and the two scriptSigs.
\<close>

definition p2sh_template :: "byte list \<Rightarrow> byte list" where
  "p2sh_template h = [OP_HASH160, 20] @ h @ [OP_EQUAL]"

definition op_return_template :: "byte list \<Rightarrow> byte list" where
  "op_return_template data = OP_RETURN # data_push data"

definition csv_2of2_then_1_opt_script ::
  "byte list \<Rightarrow> byte list \<Rightarrow> byte list \<Rightarrow> byte list" where
  "csv_2of2_then_1_opt_script main_key delay recovery_key =
     [33] @ recovery_key @ [OP_CHECKSIGVERIFY, 33] @ main_key @
     [OP_CHECKSIG, OP_IFDUP, OP_NOTIF, of_nat (length delay)] @ delay @
     [OP_CHECKSEQUENCEVERIFY, OP_ENDIF]"

definition version_opcode :: "nat \<Rightarrow> byte" where
  "version_opcode v = (if v = 0 then OP_0 else op_n v)"

definition witness_program_template :: "nat \<Rightarrow> byte list \<Rightarrow> bool \<Rightarrow> byte list" where
  "witness_program_template v program as_push =
     (let s = version_opcode v # data_push program in if as_push then data_push s else s)"

definition p2tr_template :: "byte list \<Rightarrow> byte list" where
  "p2tr_template xonly_key = [OP_1, 32] @ xonly_key"

definition scriptsig_p2pkh_template :: "byte list \<Rightarrow> byte list \<Rightarrow> byte list" where
  "scriptsig_p2pkh_template sig pub_key = data_push sig @ data_push pub_key"

definition scriptsig_multisig_template :: "byte list list \<Rightarrow> byte list \<Rightarrow> byte list" where
  "scriptsig_multisig_template sigs script =
     OP_0 # concat (map data_push sigs) @ data_push script"

text \<open>
  The three outcomes of a call of a builder \<open>build\<close> (its non-buffer arguments fixed)
  on an output buffer \<open>buf\<close>. \<open>reports\<close>: the call succeeds, leaves the buffer as it
  was and reports the length \<open>n\<close>. \<open>rejects\<close>: the call fails with \<open>WALLY_EINVAL\<close>,
  leaves the buffer as it was and reports 0. \<open>produces\<close>: the call succeeds, reports
  the length of \<open>script\<close>, and the buffer holds \<open>script\<close> followed by the bytes it
  held before beyond that length.
\<close>

definition reports :: "(byte list \<Rightarrow> ret \<times> nat \<times> byte list) \<Rightarrow> byte list \<Rightarrow> nat \<Rightarrow> bool" where
  "reports build buf n \<longleftrightarrow> build buf = (WALLY_OK, n, buf)"

definition rejects :: "(byte list \<Rightarrow> ret \<times> nat \<times> byte list) \<Rightarrow> byte list \<Rightarrow> bool" where
  "rejects build buf \<longleftrightarrow> build buf = (WALLY_EINVAL, 0, buf)"

definition produces ::
  "(byte list \<Rightarrow> ret \<times> nat \<times> byte list) \<Rightarrow> byte list \<Rightarrow> byte list \<Rightarrow> bool" where
  "produces build buf script \<longleftrightarrow>
     build buf = (WALLY_OK, length script, script @ drop (length script) buf)"

text \<open>
  Valid non-buffer arguments of the builders, as the source checks them, a collaborator
  that is called succeeding and storing as many bytes as its contract says. With each
  the script the builder is to emit: \<open>payload\<close> is the data a push stores, the digest
  when a hashing flag is set.
\<close>

definition payload :: "ext \<Rightarrow> byte list \<Rightarrow> 32 word \<Rightarrow> byte list" where
  "payload c bytes flags =
     (if flags AND WALLY_SCRIPT_HASH160 \<noteq> 0 then snd (wally_hash160 c bytes)
      else if flags AND WALLY_SCRIPT_SHA256 \<noteq> 0 then snd (wally_sha256 c bytes)
      else bytes)"

definition hash160_ok :: "ext \<Rightarrow> byte list \<Rightarrow> bool" where
  "hash160_ok c bytes \<longleftrightarrow>
     fst (wally_hash160 c bytes) = WALLY_OK \<and> length (snd (wally_hash160 c bytes)) = 20"

definition sha256_ok :: "ext \<Rightarrow> byte list \<Rightarrow> bool" where
  "sha256_ok c bytes \<longleftrightarrow>
     fst (wally_sha256 c bytes) = WALLY_OK \<and> length (snd (wally_sha256 c bytes)) = 32"

definition p2pkh_args_ok :: "ext \<Rightarrow> byte list \<Rightarrow> 32 word \<Rightarrow> bool" where
  "p2pkh_args_ok c bytes flags \<longleftrightarrow>
     flags = 0 \<and> length bytes = 20 \<or>
     flags = WALLY_SCRIPT_HASH160 \<and> (length bytes = 33 \<or> length bytes = 65) \<and>
       hash160_ok c bytes"

definition p2pkh_script :: "ext \<Rightarrow> byte list \<Rightarrow> 32 word \<Rightarrow> byte list" where
  "p2pkh_script c bytes flags = p2pkh_template (payload c bytes flags)"

definition p2sh_args_ok :: "ext \<Rightarrow> byte list \<Rightarrow> 32 word \<Rightarrow> bool" where
  "p2sh_args_ok c bytes flags \<longleftrightarrow>
     flags = 0 \<and> length bytes = 20 \<or>
     flags = WALLY_SCRIPT_HASH160 \<and> bytes \<noteq> [] \<and> hash160_ok c bytes"

definition p2sh_script :: "ext \<Rightarrow> byte list \<Rightarrow> 32 word \<Rightarrow> byte list" where
  "p2sh_script c bytes flags = p2sh_template (payload c bytes flags)"

definition op_return_args_ok :: "byte list \<Rightarrow> 32 word \<Rightarrow> bool" where
  "op_return_args_ok bytes flags \<longleftrightarrow> length bytes \<le> 80 \<and> flags = 0"

definition multisig_args_ok :: "byte list \<Rightarrow> 32 word \<Rightarrow> 32 word \<Rightarrow> bool" where
  "multisig_args_ok bytes threshold flags \<longleftrightarrow>
     bytes \<noteq> [] \<and> length bytes mod 33 = 0 \<and> length bytes div 33 \<le> 15 \<and>
     1 \<le> threshold \<and> unat threshold \<le> length bytes div 33 \<and>
     (flags = 0 \<or> flags = WALLY_SCRIPT_MULTISIG_SORTED)"

definition multisig_script :: "byte list \<Rightarrow> 32 word \<Rightarrow> 32 word \<Rightarrow> byte list" where
  "multisig_script bytes threshold flags =
     (let keys = elements bytes (length bytes div 33) 33 in
      multisig_template (unat threshold)
        (if flags = WALLY_SCRIPT_MULTISIG_SORTED then sort keys else keys))"

definition csv_args_ok :: "byte list \<Rightarrow> 32 word \<Rightarrow> 32 word \<Rightarrow> bool" where
  "csv_args_ok bytes csv_blocks flags \<longleftrightarrow>
     length bytes = 2 * 33 \<and> 17 \<le> csv_blocks \<and> csv_blocks \<le> 0xffff \<and> flags = 0"

definition csv_script :: "byte list \<Rightarrow> 32 word \<Rightarrow> byte list" where
  "csv_script bytes csv_blocks =
     csv_2of2_then_1_script (take 33 bytes) (snd (scriptint_to_bytes (ucast csv_blocks)))
       (drop 33 bytes)"

definition csv_opt_script :: "byte list \<Rightarrow> 32 word \<Rightarrow> byte list" where
  "csv_opt_script bytes csv_blocks =
     csv_2of2_then_1_opt_script (take 33 bytes) (snd (scriptint_to_bytes (ucast csv_blocks)))
       (drop 33 bytes)"

definition witness_program_args_ok :: "ext \<Rightarrow> byte list \<Rightarrow> 32 word \<Rightarrow> 32 word \<Rightarrow> bool" where
  "witness_program_args_ok c bytes version flags \<longleftrightarrow>
     version \<le> 16 \<and>
     ((flags = WALLY_SCRIPT_HASH160 \<or> flags = WALLY_SCRIPT_HASH160 OR WALLY_SCRIPT_AS_PUSH) \<and>
        bytes \<noteq> [] \<and> hash160_ok c bytes \<or>
      (flags = WALLY_SCRIPT_SHA256 \<or> flags = WALLY_SCRIPT_SHA256 OR WALLY_SCRIPT_AS_PUSH) \<and>
        bytes \<noteq> [] \<and> sha256_ok c bytes \<or>
      (flags = 0 \<or> flags = WALLY_SCRIPT_AS_PUSH) \<and>
        (if version = 0 then length bytes = 20 \<or> length bytes = 32
         else 2 \<le> length bytes \<and> length bytes \<le> 40))"

definition witness_program_script :: "ext \<Rightarrow> byte list \<Rightarrow> 32 word \<Rightarrow> 32 word \<Rightarrow> byte list" where
  "witness_program_script c bytes version flags =
     witness_program_template (unat version)
       (payload c bytes (flags AND NOT WALLY_SCRIPT_AS_PUSH))
       (flags AND WALLY_SCRIPT_AS_PUSH \<noteq> 0)"

definition p2tr_args_ok :: "ext \<Rightarrow> bool \<Rightarrow> byte list \<Rightarrow> 32 word \<Rightarrow> bool" where
  "p2tr_args_ok c build_elements bytes flags \<longleftrightarrow>
     (if build_elements then flags AND NOT EC_FLAG_ELEMENTS = 0 else flags = 0) \<and>
     (length bytes = 32 \<or>
      length bytes = 33 \<and> fst (wally_ec_public_key_bip341_tweak c bytes flags) = WALLY_OK \<and>
        length (snd (wally_ec_public_key_bip341_tweak c bytes flags)) = 33)"

definition p2tr_script :: "ext \<Rightarrow> byte list \<Rightarrow> 32 word \<Rightarrow> byte list" where
  "p2tr_script c bytes flags =
     p2tr_template
       (if length bytes = 33 then drop 1 (snd (wally_ec_public_key_bip341_tweak c bytes flags))
        else bytes)"

definition scriptsig_p2pkh_der_args_ok :: "byte list \<Rightarrow> byte list \<Rightarrow> bool" where
  "scriptsig_p2pkh_der_args_ok pub_key sig \<longleftrightarrow>
     (length pub_key = 33 \<or> length pub_key = 65) \<and> sig \<noteq> [] \<and> length sig \<le> 73"

definition sig_to_der_ok :: "ext \<Rightarrow> byte list \<times> 32 word \<Rightarrow> bool" where
  "sig_to_der_ok c = (\<lambda>(sig, sighash).
     sighash \<le> 0xff \<and> fst (wally_ec_sig_to_der c sig 73) = WALLY_OK \<and>
     length (snd (wally_ec_sig_to_der c sig 73)) \<le> 72)"

definition der_and_hash :: "ext \<Rightarrow> byte list \<times> 32 word \<Rightarrow> byte list" where
  "der_and_hash c = (\<lambda>(sig, sighash). snd (wally_ec_sig_to_der c sig 73) @ [ucast sighash])"

definition scriptsig_p2pkh_sig_args_ok :: "ext \<Rightarrow> byte list \<Rightarrow> byte list \<Rightarrow> 32 word \<Rightarrow> bool" where
  "scriptsig_p2pkh_sig_args_ok c pub_key sig sighash \<longleftrightarrow>
     (length pub_key = 33 \<or> length pub_key = 65) \<and> sig_to_der_ok c (sig, sighash)"

definition scriptsig_p2pkh_sig_script :: "ext \<Rightarrow> byte list \<Rightarrow> byte list \<Rightarrow> 32 word \<Rightarrow> byte list" where
  "scriptsig_p2pkh_sig_script c pub_key sig sighash =
     scriptsig_p2pkh_template (der_and_hash c (sig, sighash)) pub_key"

definition scriptsig_multisig_args_ok ::
  "ext \<Rightarrow> byte list \<Rightarrow> byte list \<Rightarrow> 32 word list \<Rightarrow> 32 word \<Rightarrow> bool" where
  "scriptsig_multisig_args_ok c script bytes sighash flags \<longleftrightarrow>
     script \<noteq> [] \<and> bytes \<noteq> [] \<and> length bytes mod 64 = 0 \<and> length bytes div 64 \<le> 15 \<and>
     length sighash = length bytes div 64 \<and> flags = 0 \<and>
     list_all (sig_to_der_ok c) (zip (elements bytes (length bytes div 64) 64) sighash)"

definition scriptsig_multisig_script ::
  "ext \<Rightarrow> byte list \<Rightarrow> byte list \<Rightarrow> 32 word list \<Rightarrow> byte list" where
  "scriptsig_multisig_script c script bytes sighash =
     scriptsig_multisig_template
       (map (der_and_hash c) (zip (elements bytes (length bytes div 64) 64) sighash)) script"

text \<open>
  A stand-in for the external collaborators, for closed instances: every primitive
  succeeds and stores zero bytes (70 of them for a DER signature).
\<close>

definition test_ext :: ext where
  "test_ext =
     \<lparr>wally_hash160 = (\<lambda>bytes. (WALLY_OK, replicate 20 0)),
      wally_sha256 = (\<lambda>bytes. (WALLY_OK, replicate 32 0)),
      wally_ec_public_key_bip341_tweak = (\<lambda>bytes flags. (WALLY_OK, replicate 33 0)),
      wally_ec_sig_to_der = (\<lambda>sig len. (WALLY_OK, replicate 70 0))\<rparr>"

text \<open>
  The bytes of a redeem script that belong to a 33-byte direct public-key push met
  before the first \<open>OP_ELSE\<close> opcode, the script being read opcode by opcode as the
  spec describes the rewriter: \<open>key_push_mask p else_seen ! i\<close> holds when byte \<open>i\<close>
  of \<open>p\<close> is part of such a push (its opcode byte or its 33 key bytes). A byte that
  does not start a well-formed push is an opcode of its own.
\<close>

function key_push_mask :: "byte list \<Rightarrow> bool \<Rightarrow> bool list" where
  "key_push_mask p else_seen =
     (if p = [] then []
      else
        (case get_push_size p False of
           Inr size_out \<Rightarrow>
             (case get_push_size p True of
                Inr opcode_size \<Rightarrow>
                  replicate (size_out + opcode_size)
                    (opcode_size = 1 \<and> size_out = 33 \<and> \<not> else_seen) @
                  key_push_mask (drop (size_out + opcode_size) p) else_seen
              | Inl _ \<Rightarrow> False # key_push_mask (drop 1 p) (else_seen \<or> p ! 0 = OP_ELSE))
         | Inl _ \<Rightarrow> False # key_push_mask (drop 1 p) (else_seen \<or> p ! 0 = OP_ELSE)))"
  by pat_completeness auto
termination
proof (relation "measure (\<lambda>(p, else_seen). length p)", goal_cases)
  case 1
  show ?case by simp
next
  case (2 p else_seen e)
  then show ?case by simp
next
  case (3 p else_seen size_out e)
  then show ?case by simp
next
  case (4 p else_seen size_out opcode_size)
  have "0 < opcode_size"
    using 4(3) unfolding get_push_size_def Let_def
    by (auto split: if_splits sum.splits prod.splits)
  with 4(1) show ?case by simp
qed

declare key_push_mask.simps [simp del]

text \<open>
  A stand-in for the secp256k1 collaborator, for closed instances: keys are their own
  serialisation, the tweak adds one to every byte of a key, and the self-check of the
  rewriter passes.
\<close>

definition test_secp :: "byte list secp" where
  "test_secp =
     \<lparr>pubkey_parse = Some,
      wally_hmac_sha256 = (\<lambda>key msg. (WALLY_OK, replicate 32 9)),
      pubkey_tweak_add = (\<lambda>pub_key tweak. Some (map (\<lambda>b. b + 1) pub_key)),
      pubkey_serialize = Some,
      pubkey_create = Some,
      pubkey_negate = Some,
      pubkey_combine = (\<lambda>pub_keys. Some (replicate 32 9))\<rparr>"


section \<open>Names for groups of defining equations\<close>

lemmas opcode_defs =
  OP_0_def OP_PUSHDATA1_def OP_PUSHDATA2_def OP_PUSHDATA4_def OP_1_def OP_16_def
  OP_IF_def OP_NOTIF_def OP_ELSE_def OP_ENDIF_def OP_RETURN_def OP_IFDUP_def
  OP_DEPTH_def OP_DROP_def OP_DUP_def OP_EQUAL_def OP_EQUALVERIFY_def OP_1SUB_def
  OP_HASH160_def OP_CHECKSIG_def OP_CHECKSIGVERIFY_def OP_CHECKMULTISIG_def
  OP_CHECKSEQUENCEVERIFY_def

lemmas len_defs =
  EC_PUBLIC_KEY_LEN_def EC_PUBLIC_KEY_UNCOMPRESSED_LEN_def EC_XONLY_PUBLIC_KEY_LEN_def
  HASH160_LEN_def SHA256_LEN_def WALLY_SCRIPTPUBKEY_P2PKH_LEN_def
  WALLY_SCRIPTPUBKEY_P2SH_LEN_def WALLY_SCRIPTPUBKEY_P2WPKH_LEN_def
  WALLY_SCRIPTPUBKEY_P2WSH_LEN_def WALLY_SCRIPTPUBKEY_P2TR_LEN_def
  WALLY_MAX_OP_RETURN_LEN_def WALLY_WITNESSSCRIPT_MAX_LEN_def

lemmas flag_defs =
  WALLY_SCRIPT_HASH160_def WALLY_SCRIPT_SHA256_def WALLY_SCRIPT_AS_PUSH_def
  WALLY_SCRIPT_MULTISIG_SORTED_def ALL_SCRIPT_HASH_FLAGS_def

lemmas vi_defs = VI_TAG_16_def VI_TAG_32_def VI_TAG_64_def VI_MAX_8_def VI_MAX_16_def
  VI_MAX_32_def

lemmas ct_defs =
  WALLY_TX_ASSET_CT_EXPLICIT_PREFIX_def WALLY_TX_ASSET_CT_VALUE_PREFIX_A_def
  WALLY_TX_ASSET_CT_VALUE_PREFIX_B_def WALLY_TX_ASSET_CT_ASSET_PREFIX_A_def
  WALLY_TX_ASSET_CT_ASSET_PREFIX_B_def WALLY_TX_ASSET_CT_NONCE_PREFIX_A_def
  WALLY_TX_ASSET_CT_NONCE_PREFIX_B_def WALLY_TX_ASSET_CT_VALUE_UNBLIND_LEN_def
  WALLY_TX_ASSET_CT_LEN_def

section \<open>Little-endian bytes of a word\<close>

lemma chunk_bit:
  "bit (push_bit k (ucast (ucast (drop_bit k v) :: byte)) :: 64 word) n \<longleftrightarrow>
     k \<le> n \<and> n < k + 8 \<and> n < 64 \<and> bit (v :: 64 word) n"
  by (auto simp add: bit_simps)

lemma chunk0_bit:
  "bit (ucast (ucast v :: byte) :: 64 word) n \<longleftrightarrow> n < 8 \<and> bit (v :: 64 word) n"
  by (auto simp add: bit_simps)

lemma le_bytes64:
  "push_bit 56 (ucast (ucast (drop_bit 56 v) :: byte)) OR
   push_bit 48 (ucast (ucast (drop_bit 48 v) :: byte)) OR
   push_bit 40 (ucast (ucast (drop_bit 40 v) :: byte)) OR
   push_bit 32 (ucast (ucast (drop_bit 32 v) :: byte)) OR
   push_bit 24 (ucast (ucast (drop_bit 24 v) :: byte)) OR
   push_bit 16 (ucast (ucast (drop_bit 16 v) :: byte)) OR
   push_bit 8 (ucast (ucast (drop_bit 8 v) :: byte)) OR
   ucast (ucast v :: byte) = (v :: 64 word)" (is "?lhs = v")
proof (rule bit_eqI)
  fix n
  assume "possible_bit TYPE(64 word) n"
  hence n: "n < 64" by (simp add: possible_bit_word)
  show "bit ?lhs n = bit v n"
  proof (cases "bit v n")
    case True
    with n show ?thesis unfolding bit_or_iff chunk_bit chunk0_bit by simp arith
  next
    case False
    then show ?thesis unfolding bit_or_iff chunk_bit chunk0_bit by simp
  qed
qed

lemma hi_zero:
  assumes "unat (v :: 64 word) < 2 ^ k" shows "drop_bit k v = 0"
proof -
  have "unat (drop_bit k v) = drop_bit k (unat v)" by (rule unat_drop_bit_eq)
  also have "\<dots> = 0" using assms by (simp add: drop_bit_eq_div)
  finally show ?thesis by (simp add: unat_eq_zero)
qed

lemma hi_bits: 
  assumes "unat (v :: 64 word) < 2 ^ k" "k \<le> n" shows "\<not> bit v n"
proof -
  have "bit (drop_bit k v) (n - k) = bit v n" using assms by (simp add: bit_drop_bit_eq)
  thus ?thesis using hi_zero [OF assms(1)] by simp
qed

lemma chunk16_bit:
  "bit (push_bit k (ucast (ucast (drop_bit k (ucast v :: 16 word)) :: byte)) :: 64 word) n \<longleftrightarrow>
     k \<le> n \<and> n < k + 8 \<and> n < 16 \<and> bit (v :: 64 word) n"
  by (auto simp add: bit_simps)

lemma chunk16_0_bit:
  "bit (ucast (ucast (ucast v :: 16 word) :: byte) :: 64 word) n \<longleftrightarrow> n < 8 \<and> bit (v :: 64 word) n"
  by (auto simp add: bit_simps)

lemma chunk32_bit:
  "bit (push_bit k (ucast (ucast (drop_bit k (ucast v :: 32 word)) :: byte)) :: 64 word) n \<longleftrightarrow>
     k \<le> n \<and> n < k + 8 \<and> n < 32 \<and> bit (v :: 64 word) n"
  by (auto simp add: bit_simps)

lemma chunk32_0_bit:
  "bit (ucast (ucast (ucast v :: 32 word) :: byte) :: 64 word) n \<longleftrightarrow> n < 8 \<and> bit (v :: 64 word) n"
  by (auto simp add: bit_simps)

lemma le_bytes16:
  assumes "v \<le> 0xFFFF"
  shows "push_bit 8 (ucast (ucast (drop_bit 8 (ucast v :: 16 word)) :: byte)) OR
         ucast (ucast (ucast v :: 16 word) :: byte) = (v :: 64 word)" (is "?lhs = v")
proof (rule bit_eqI)
  fix n
  have "unat v < 2 ^ 16" using assms by (simp add: word_le_nat_alt)
  hence z: "16 \<le> n \<Longrightarrow> \<not> bit v n" by (rule hi_bits)
  show "bit ?lhs n = bit v n"
  proof (cases "bit v n")
    case True
    with z have "n < 16" by (cases "n < 16") auto
    with True show ?thesis unfolding bit_or_iff chunk16_bit chunk16_0_bit by simp arith
  next
    case False
    then show ?thesis unfolding bit_or_iff chunk16_bit chunk16_0_bit by simp
  qed
qed

lemma le_bytes32:
  assumes "v \<le> 0xFFFFFFFF"
  shows "push_bit 24 (ucast (ucast (drop_bit 24 (ucast v :: 32 word)) :: byte)) OR
         push_bit 16 (ucast (ucast (drop_bit 16 (ucast v :: 32 word)) :: byte)) OR
         push_bit 8 (ucast (ucast (drop_bit 8 (ucast v :: 32 word)) :: byte)) OR
         ucast (ucast (ucast v :: 32 word) :: byte) = (v :: 64 word)" (is "?lhs = v")
proof (rule bit_eqI)
  fix n
  have "unat v < 2 ^ 32" using assms by (simp add: word_le_nat_alt)
  hence z: "32 \<le> n \<Longrightarrow> \<not> bit v n" by (rule hi_bits)
  show "bit ?lhs n = bit v n"
  proof (cases "bit v n")
    case True
    with z have "n < 32" by (cases "n < 32") auto
    with True show ?thesis unfolding bit_or_iff chunk32_bit chunk32_0_bit by simp arith
  next
    case False
    then show ?thesis unfolding bit_or_iff chunk32_bit chunk32_0_bit by simp
  qed
qed

lemma le_bytes8:
  assumes "v \<le> 252"
  shows "ucast (ucast v :: byte) = (v :: 64 word)"
proof (rule bit_eqI)
  fix n
  have "unat v < 2 ^ 8" using assms by (simp add: word_le_nat_alt)
  hence z: "8 \<le> n \<Longrightarrow> \<not> bit v n" by (rule hi_bits)
  show "bit (ucast (ucast v :: byte) :: 64 word) n = bit v n"
    using z unfolding chunk0_bit by (cases "n < 8") auto
qed

lemma tag8:
  assumes "v \<le> (252 :: 64 word)"
  shows "(ucast v :: byte) \<noteq> 253 \<and> (ucast v :: byte) \<noteq> 254 \<and> (ucast v :: byte) \<noteq> 255"
proof -
  have e: "ucast (ucast v :: byte) = v" using assms by (rule le_bytes8)
  have n: "v \<noteq> 253 \<and> v \<noteq> 254 \<and> v \<noteq> 255" using assms by auto
  have "(ucast v :: byte) = w \<Longrightarrow> v = ucast w" for w using e by simp
  from this [of 253] this [of 254] this [of 255] n show ?thesis by auto
qed

section \<open>Varint round trip\<close>

lemma varint_to_bytes_cases:
  "varint_to_bytes v =
     (if v \<le> 252 then (1, [ucast v])
      else if v \<le> 0xFFFF then
        (3, [253, ucast (ucast v :: 16 word), ucast (drop_bit 8 (ucast v :: 16 word))])
      else if v \<le> 0xFFFFFFFF then
        (5, [254, ucast (ucast v :: 32 word), ucast (drop_bit 8 (ucast v :: 32 word)),
             ucast (drop_bit 16 (ucast v :: 32 word)), ucast (drop_bit 24 (ucast v :: 32 word))])
      else
        (9, [255, ucast v, ucast (drop_bit 8 v), ucast (drop_bit 16 v), ucast (drop_bit 24 v),
             ucast (drop_bit 32 v), ucast (drop_bit 40 v), ucast (drop_bit 48 v),
             ucast (drop_bit 56 v)]))"
  by (simp add: varint_to_bytes_def vi_defs uint8_to_le_bytes_def uint16_to_le_bytes_def
      uint32_to_le_bytes_def uint64_to_le_bytes_def)

lemma varint_decode_8:
  assumes "v \<le> 252"
  shows "varint_from_bytes ((ucast v :: byte) # rest) = Some (v, 1)"
  using tag8 [OF assms] le_bytes8 [OF assms]
  by (simp add: varint_from_bytes_def vi_defs)

lemma varint_decode_16:
  assumes "v \<le> 0xFFFF"
  shows "varint_from_bytes
           (253 # ucast (ucast v :: 16 word) # ucast (drop_bit 8 (ucast v :: 16 word)) # rest)
         = Some (v, 3)"
  using le_bytes16 [OF assms]
  by (simp add: varint_from_bytes_def vi_defs vb_def)

lemma varint_decode_32:
  assumes "v \<le> 0xFFFFFFFF"
  shows "varint_from_bytes
           (254 # ucast (ucast v :: 32 word) # ucast (drop_bit 8 (ucast v :: 32 word)) #
            ucast (drop_bit 16 (ucast v :: 32 word)) #
            ucast (drop_bit 24 (ucast v :: 32 word)) # rest)
         = Some (v, 5)"
  using le_bytes32 [OF assms]
  by (simp add: varint_from_bytes_def vi_defs vb_def)

lemma varint_decode_64:
  "varint_from_bytes
     (255 # ucast v # ucast (drop_bit 8 v) # ucast (drop_bit 16 v) # ucast (drop_bit 24 v) #
      ucast (drop_bit 32 v) # ucast (drop_bit 40 v) # ucast (drop_bit 48 v) #
      ucast (drop_bit 56 v) # rest)
   = Some (v, 9)"
  using le_bytes64 [of v]
  by (simp add: varint_from_bytes_def vi_defs vb_def)

text \<open>
  C3. For every 64-bit value \<open>v\<close>, decoding the bytes the varint encoder produces
  (whatever follows them) yields \<open>v\<close> and consumes exactly the number of bytes
  the encoder returned; that number is the number of bytes written and equals
  \<open>varint_get_length v\<close>, which is 1 for \<open>v \<le> 252\<close>, 3 for \<open>v \<le> 0xFFFF\<close>, 5 for
  \<open>v \<le> 0xFFFFFFFF\<close> and 9 otherwise.
\<close>

theorem varint_roundtrip:
  "varint_from_bytes (snd (varint_to_bytes v) @ rest) = Some (v, fst (varint_to_bytes v)) \<and>
   fst (varint_to_bytes v) = length (snd (varint_to_bytes v)) \<and>
   fst (varint_to_bytes v) = varint_get_length v \<and>
   varint_get_length v =
     (if v \<le> 252 then 1 else if v \<le> 0xFFFF then 3 else if v \<le> 0xFFFFFFFF then 5 else 9)"
proof -
  have len: "varint_get_length v =
     (if v \<le> 252 then 1 else if v \<le> 0xFFFF then 3 else if v \<le> 0xFFFFFFFF then 5 else 9)"
    by (simp add: varint_get_length_def vi_defs)
  consider (a) "v \<le> 252" | (b) "\<not> v \<le> 252" "v \<le> 0xFFFF"
    | (c) "\<not> v \<le> 252" "\<not> v \<le> 0xFFFF" "v \<le> 0xFFFFFFFF"
    | (d) "\<not> v \<le> 252" "\<not> v \<le> 0xFFFF" "\<not> v \<le> 0xFFFFFFFF"
    by blast
  then show ?thesis
  proof cases
    case a
    then show ?thesis using varint_decode_8 [OF a, of rest]
      by (simp add: varint_to_bytes_cases len)
  next
    case b
    then show ?thesis using varint_decode_16 [OF b(2), of rest]
      by (simp add: varint_to_bytes_cases len)
  next
    case c
    then show ?thesis using varint_decode_32 [OF c(3), of rest]
      by (simp add: varint_to_bytes_cases len)
  next
    case d
    then show ?thesis using varint_decode_64 [of v rest]
      by (simp add: varint_to_bytes_cases len)
  qed
qed


section \<open>Script-integer round trip\<close>

lemma le_val_snoc: "le_val (xs @ [b]) = le_val xs OR push_bit (8 * length xs) (ucast b)"
  by (induction xs) (simp_all add: or.assoc add.commute)

lemma and_ff: "v AND 0xff = take_bit 8 (v :: 64 word)"
proof -
  have "(0xff :: 64 word) = mask 8" by (simp add: mask_eq_exp_minus_1)
  thus ?thesis by (simp add: take_bit_eq_mask)
qed

lemma lo_split: "ucast (ucast (v AND 0xff) :: byte) OR push_bit 8 (drop_bit 8 v) = (v :: 64 word)"
  unfolding and_ff 
proof (rule bit_eqI)
  fix n
  assume "possible_bit TYPE(64 word) n"
  hence "n < 64" by (simp add: possible_bit_word)
  thus "bit (ucast (ucast (take_bit 8 v) :: byte) OR push_bit 8 (drop_bit 8 v) :: 64 word) n = bit v n"
    by (cases "n < 8") (auto simp add: bit_simps)
qed

lemma lo_byte: "(ucast (v AND 0xff) :: byte) = ucast (v :: 64 word)"
  unfolding and_ff by (rule bit_eqI) (auto simp add: bit_simps)

lemma bit_le_val:
  "bit (le_val bs) n \<longleftrightarrow> n < 8 * length bs \<and> n < 64 \<and> bit (bs ! (n div 8)) (n mod 8)"
proof (induction bs arbitrary: n)
  case Nil
  then show ?case by simp
next
  case (Cons b bs)
  show ?case
  proof (cases "n < 8")
    case True
    then show ?thesis by (simp add: bit_simps)
  next
    case False
    define m where "m = n - 8"
    have n: "n = m + 8" using False by (simp add: m_def)
    have "\<not> bit b (m + 8)" using bit_imp_le_length [of b "m + 8"] by auto
    hence "bit (le_val (b # bs)) n = (n < 64 \<and> bit (le_val bs) m)"
      by (simp add: bit_simps n)
    also have "\<dots> = (n < 64 \<and> m < 8 * length bs \<and> m < 64 \<and> bit (bs ! (m div 8)) (m mod 8))"
      by (simp only: Cons.IH)
    also have "\<dots> = (n < 8 * length (b # bs) \<and> n < 64 \<and> bit ((b # bs) ! (n div 8)) (n mod 8))"
    proof -
      have d: "(m + 8) div 8 = Suc (m div 8)" "(m + 8) mod 8 = m mod 8" by simp_all
      show ?thesis unfolding n d by auto
    qed
    finally show ?thesis .
  qed
qed

lemma to_bytes_loop:
  "\<exists>bs. scriptint_to_bytes_loop v out lst = (out @ bs, if bs = [] then lst else last bs) \<and>
        le_val bs = v \<and> (bs \<noteq> [] \<longrightarrow> last bs \<noteq> 0) \<and> (bs = [] \<longleftrightarrow> v = 0)"
proof (induction v out lst rule: scriptint_to_bytes_loop.induct)
  case (1 v out lst)
  show ?case
  proof (cases "v = 0")
    case True
    then show ?thesis by (simp add: scriptint_to_bytes_loop.simps [of 0])
  next
    case False
    let ?c = "ucast (v AND 0xff) :: byte"
    from 1 [OF False] obtain bs where
      bs: "scriptint_to_bytes_loop (drop_bit 8 v) (out @ [?c]) ?c =
             ((out @ [?c]) @ bs, if bs = [] then ?c else last bs)"
          "le_val bs = drop_bit 8 v" "bs \<noteq> [] \<longrightarrow> last bs \<noteq> 0" "bs = [] \<longleftrightarrow> drop_bit 8 v = 0"
      by blast
    have v: "le_val (?c # bs) = v" using bs(2) by (simp add: lo_split)
    have nz: "last (?c # bs) \<noteq> 0"
    proof (cases "bs = []")
      case True
      hence "drop_bit 8 v = 0" using bs(4) by simp
      hence "ucast ?c = v" using lo_split [of v] by simp
      with False show ?thesis using True by auto
    next
      case False
      then show ?thesis using bs(3) by simp
    qed
    have "scriptint_to_bytes_loop v out lst = (out @ (?c # bs), last (?c # bs))"
      using False bs(1) by (simp add: scriptint_to_bytes_loop.simps [of v])
    with v nz False show ?thesis by (intro exI [of _ "?c # bs"]) simp
  qed
qed

lemma get_length_loop:
  "scriptint_get_length_loop v len lst =
     (len + (length (fst (scriptint_to_bytes_loop v out lst)) - length out),
      snd (scriptint_to_bytes_loop v out lst))"
proof (induction v len lst arbitrary: out rule: scriptint_get_length_loop.induct)
  case (1 v len lst)
  let ?c = "ucast (v AND 0xff) :: byte"
  obtain bs where bs: "scriptint_to_bytes_loop (drop_bit 8 v) (out @ [?c]) ?c =
     ((out @ [?c]) @ bs, if bs = [] then ?c else last bs)"
    using to_bytes_loop by blast
  show ?case
  proof (cases "v = 0")
    case True
    then show ?thesis
      by (simp add: scriptint_to_bytes_loop.simps [of 0] scriptint_get_length_loop.simps [of 0])
  next
    case False
    then show ?thesis
      using 1 [OF False, of "out @ [?c]"] bs
      by (simp add: scriptint_to_bytes_loop.simps [of v] scriptint_get_length_loop.simps [of v])
  qed
qed

text \<open>The decoder loop computes the little-endian value of the bytes it reads.\<close>

lemma from_bytes_fold:
  "n \<le> length bs \<Longrightarrow>
   fold (\<lambda>i (value, msk).
           (value OR push_bit (8 * i) (ucast ((l # bs) ! (i + 1))), push_bit 8 msk))
        [0 ..< n] (0, 0x80 :: 64 word)
   = (le_val (take n bs), push_bit (8 * n) 0x80)"
proof (induction n)
  case 0
  then show ?case by simp
next
  case (Suc n)
  hence "take (Suc n) bs = take n bs @ [bs ! n]" by (simp add: take_Suc_conv_app_nth)
  with Suc show ?case by (simp add: le_val_snoc add.commute)
qed

lemma top_bit: "(b AND 0x80 \<noteq> 0) = bit (b :: byte) 7"
proof -
  have "(0x80 :: byte) = 2 ^ 7" by simp
  thus ?thesis by (simp only: and_exp_eq_0_iff_not_bit) simp
qed

lemma sign_mask:
  "signed_drop_bit 8 (push_bit (8 * 1) (0x80 :: 64 word)) = 2 ^ (8 * 0 + 7)"
  "signed_drop_bit 8 (push_bit (8 * 2) (0x80 :: 64 word)) = 2 ^ (8 * 1 + 7)"
  "signed_drop_bit 8 (push_bit (8 * 3) (0x80 :: 64 word)) = 2 ^ (8 * 2 + 7)"
  "signed_drop_bit 8 (push_bit (8 * 4) (0x80 :: 64 word)) = 2 ^ (8 * 3 + 7)"
  by simp_all

lemma push_80: "push_bit (8 * k) (0x80 :: 64 word) = 2 ^ (8 * k + 7)"
  by (simp add: push_bit_eq_mult power_add)

lemma or_xor_bit: "\<not> bit m j \<Longrightarrow> (m OR 2 ^ j) XOR 2 ^ j = (m :: 64 word)"
  by (rule bit_eqI) (auto simp add: bit_simps)

lemma c80: "(0x80 :: 64 word) = 2 ^ 7" by simp

lemma ucast_or_80: "(ucast (b OR 0x80 :: byte) :: 64 word) = ucast b OR 0x80"
  unfolding c80 by (simp add: unsigned_or_eq)

lemma uint_of_sint_nonneg:
  assumes "0 \<le> k" "k < 2 ^ 31"
  shows "uint (word_of_int k :: 64 word) = k"
proof -
  have "uint (word_of_int k :: 64 word) = take_bit LENGTH(64) k" by (rule uint_word_of_int_eq)
  also have "\<dots> = k"
  proof (rule take_bit_int_eq_self)
    show "0 \<le> k" by fact
    have "(2 :: int) ^ 31 \<le> 2 ^ LENGTH(64)" by simp
    with assms(2) show "k < 2 ^ LENGTH(64)" by linarith
  qed
  finally show ?thesis .
qed

lemma unat_lt: "uint (w :: 64 word) < 2 ^ 31 \<Longrightarrow> unat w < 2 ^ 31"
proof -
  assume "uint w < 2 ^ 31"
  hence "nat (uint w) < nat (2 ^ 31)" by (intro nat_mono_iff [THEN iffD2]) simp_all
  thus ?thesis by (simp only: unat_eq_nat_uint) simp
qed

lemma magnitude:
  assumes "\<bar>sint (v :: 64 word)\<bar> < 2 ^ 31"
  shows "unat (if v <s 0 then - v else v) < 2 ^ 31"
proof (cases "v <s 0")
  case True
  hence s: "sint v < 0" by (simp add: word_sless_alt)
  have "(word_of_int (- sint v) :: 64 word) = - word_of_int (sint v)" by (rule of_int_minus)
  hence e: "- v = word_of_int (- sint v)" by simp
  have "uint (word_of_int (- sint v) :: 64 word) = - sint v"
    using s assms by (intro uint_of_sint_nonneg) simp_all
  hence "uint (- v) = - sint v" by (simp only: e)
  hence "uint (- v) < 2 ^ 31" using assms s by linarith
  hence "unat (- v) < 2 ^ 31" by (rule unat_lt)
  with True show ?thesis by simp
next
  case False
  hence s: "0 \<le> sint v" by (simp add: word_sless_alt)
  have "uint (word_of_int (sint v) :: 64 word) = sint v"
    using s assms by (intro uint_of_sint_nonneg) simp_all
  hence "uint v < 2 ^ 31" using assms s by simp
  hence "unat v < 2 ^ 31" by (rule unat_lt)
  with False show ?thesis by simp
qed

lemma to_bytes_loop_length:
  "unat v < 2 ^ (8 * k) \<Longrightarrow> length (fst (scriptint_to_bytes_loop v out lst)) \<le> length out + k"
proof (induction v out lst arbitrary: k rule: scriptint_to_bytes_loop.induct)
  case (1 v out lst)
  show ?case
  proof (cases "v = 0")
    case True
    then show ?thesis by (simp add: scriptint_to_bytes_loop.simps [of 0])
  next
    case False
    hence "0 < unat v" by (simp add: unat_gt_0)
    with 1(2) have "k \<noteq> 0" by (cases k) auto
    then obtain j where k: "k = Suc j" by (cases k) auto
    have "unat (drop_bit 8 v) = drop_bit 8 (unat v)" by (rule unat_drop_bit_eq)
    also have "\<dots> = unat v div 2 ^ 8" by (rule drop_bit_eq_div)
    also have "\<dots> < 2 ^ (8 * j)"
    proof -
      have "unat v < 2 ^ 8 * 2 ^ (8 * j)" using 1(2) by (simp add: k power_add)
      thus ?thesis by (simp add: less_mult_imp_div_less mult.commute)
    qed
    finally have "unat (drop_bit 8 v) < 2 ^ (8 * j)" .
    from 1(1) [OF False this] show ?thesis
      using False by (simp add: scriptint_to_bytes_loop.simps [of v] k)
  qed
qed

lemma unat_small: "n \<le> 4 \<Longrightarrow> unat (of_nat n :: byte) = n"
  by (simp add: unat_of_nat)

lemma small_le4: "n \<le> 4 \<Longrightarrow> \<not> (of_nat n :: byte) > 4"
proof -
  assume "n \<le> 4"
  hence "unat (of_nat n :: byte) \<le> unat (4 :: byte)" by (simp add: unat_small)
  thus ?thesis by (simp only: word_le_nat_alt [symmetric] not_less)
qed

lemma decode_general:
  assumes "length enc = n" "n \<le> 4"
  shows "scriptint_from_bytes (of_nat n # enc @ rest) =
           (if 0 < n \<and> bit (last enc) 7
            then (WALLY_OK, - (le_val enc XOR 2 ^ (8 * (n - 1) + 7)))
            else (WALLY_OK, le_val enc))"
proof -
  let ?bytes = "of_nat n # enc @ rest"
  have u: "unat (?bytes ! 0) = n" using assms(2) by (simp add: unat_small)
  have g: "\<not> ?bytes ! 0 > 4" using assms(2) by (simp add: small_le4)
  have f: "fold (\<lambda>i (value, msk).
             (value OR push_bit (8 * i) (ucast (?bytes ! (i + 1))), push_bit 8 msk))
             [0 ..< n] (0, 0x80 :: 64 word) = (le_val enc, push_bit (8 * n) 0x80)"
    using from_bytes_fold [of n "enc @ rest" "of_nat n"] assms(1) by simp
  have s: "(?bytes ! n) AND 0x80 \<noteq> 0 \<longleftrightarrow> 0 < n \<and> bit (last enc) 7"
  proof (cases n)
    case 0
    then show ?thesis by simp
  next
    case (Suc k)
    hence "enc \<noteq> []" using assms(1) by auto
    hence "?bytes ! n = last enc" using assms(1) Suc by (simp add: nth_append last_conv_nth)
    then show ?thesis using Suc by (simp add: top_bit)
  qed
  have m: "0 < n \<Longrightarrow> signed_drop_bit 8 (push_bit (8 * n) (0x80 :: 64 word)) = 2 ^ (8 * (n - 1) + 7)"
  proof -
    assume "0 < n"
    with assms(2) consider "n = 1" | "n = 2" | "n = 3" | "n = 4" by linarith
    then show ?thesis using sign_mask by cases simp_all
  qed
  have "scriptint_from_bytes ?bytes =
          (if (?bytes ! n) AND 0x80 \<noteq> 0
           then (WALLY_OK, - (le_val enc XOR signed_drop_bit 8 (push_bit (8 * n) 0x80)))
           else (WALLY_OK, le_val enc))"
    unfolding scriptint_from_bytes_def using g assms(1) by (simp only: u f) simp
  also have "\<dots> = (if 0 < n \<and> bit (last enc) 7
            then (WALLY_OK, - (le_val enc XOR 2 ^ (8 * (n - 1) + 7)))
            else (WALLY_OK, le_val enc))"
    using m by (simp only: s) simp
  finally show ?thesis .
qed

lemma le_val_set_top:
  assumes "bs \<noteq> []"
  shows "le_val (bs[length bs - 1 := (bs ! (length bs - 1)) OR 0x80]) =
         le_val bs OR 2 ^ (8 * (length bs - 1) + 7)"
proof -
  from assms have bs: "bs = butlast bs @ [last bs]" by simp
  have l: "bs ! (length bs - 1) = last bs" using assms by (simp add: last_conv_nth)
  have len: "length (butlast bs) = length bs - 1" by simp
  have "bs[length bs - 1 := last bs OR 0x80] = butlast bs @ [last bs OR 0x80]"
    by (subst bs) (simp only: len [symmetric] list_update_length)
  hence "le_val (bs[length bs - 1 := last bs OR 0x80]) =
         le_val (butlast bs) OR push_bit (8 * (length bs - 1)) (ucast (last bs) OR 0x80)"
    by (simp add: le_val_snoc ucast_or_80)
  also have "\<dots> = (le_val (butlast bs) OR push_bit (8 * (length bs - 1)) (ucast (last bs)))
                    OR push_bit (8 * (length bs - 1)) 0x80"
    by (simp add: or.assoc)
  also have "le_val (butlast bs) OR push_bit (8 * (length bs - 1)) (ucast (last bs)) = le_val bs"
    using le_val_snoc [of "butlast bs" "last bs"] assms by simp
  finally show ?thesis by (simp only: l push_80)
qed

lemma last_bit_in_value:
  assumes "bs \<noteq> []" "length bs \<le> 8"
  shows "bit (le_val bs) (8 * (length bs - 1) + 7) = bit (last bs) 7"
proof -
  have d: "(8 * (length bs - 1) + 7) div 8 = length bs - 1" "(8 * (length bs - 1) + 7) mod 8 = 7"
    by simp_all
  have "0 < length bs" using assms by simp 
  hence "8 * (length bs - 1) + 7 < 8 * length bs" "8 * (length bs - 1) + 7 < 64"
    using assms(2) by linarith+
  thus ?thesis using assms by (simp add: bit_le_val d last_conv_nth)
qed

lemma encode_shape:
  assumes "unat m < 2 ^ 31"
  obtains bs where
    "scriptint_to_bytes_loop m [] 0 = (bs, if bs = [] then 0 else last bs)"
    "le_val bs = m" "bs = [] \<longleftrightarrow> m = 0" "length bs \<le> 4"
    "bs \<noteq> [] \<and> bit (last bs) 7 \<longrightarrow> length bs \<le> 3"
proof -
  from to_bytes_loop [of m "[]" 0] obtain bs where
    bs: "scriptint_to_bytes_loop m [] 0 = (bs, if bs = [] then 0 else last bs)"
        "le_val bs = m" "bs = [] \<longleftrightarrow> m = 0"
    by auto
  have "unat m < 2 ^ (8 * 4)" using assms by simp
  from to_bytes_loop_length [OF this, of "[]" 0] have len: "length bs \<le> 4"
    by (simp add: bs(1))
  have "length bs \<le> 3" if "bs \<noteq> []" "bit (last bs) 7"
  proof (rule ccontr)
    assume "\<not> length bs \<le> 3"
    with len have l4: "length bs = 4" by simp
    have "bit (le_val bs) (8 * (length bs - 1) + 7)"
      using last_bit_in_value [of bs] that len by simp
    hence "bit m 31" by (simp add: l4 bs(2))
    moreover have "\<not> bit m 31" using assms by (rule hi_bits) simp
    ultimately show False by simp
  qed
  with bs len show ?thesis by (intro that [of bs]) auto
qed

lemma scriptint_decode_encode:
  assumes "\<bar>sint v\<bar> < 2 ^ 31"
  shows "scriptint_from_bytes
           (of_nat (fst (scriptint_to_bytes v)) # snd (scriptint_to_bytes v) @ rest) =
         (WALLY_OK, v) \<and>
         fst (scriptint_to_bytes v) = length (snd (scriptint_to_bytes v)) \<and>
         fst (scriptint_to_bytes v) \<le> 4"
proof -
  define m where "m = (if v <s 0 then - v else v)"
  have mb: "unat m < 2 ^ 31" unfolding m_def using assms by (rule magnitude)
  have mv: "(if v <s 0 then - m else m) = v" by (simp add: m_def)
  have neg_nz: "v <s 0 \<Longrightarrow> m \<noteq> 0" by (auto simp add: m_def)
  from encode_shape [OF mb] obtain bs where
    bs: "scriptint_to_bytes_loop m [] 0 = (bs, if bs = [] then 0 else last bs)"
        "le_val bs = m" "bs = [] \<longleftrightarrow> m = 0" "length bs \<le> 4"
        "bs \<noteq> [] \<and> bit (last bs) 7 \<longrightarrow> length bs \<le> 3"
    by blast
  let ?top = "bs \<noteq> [] \<and> bit (last bs) 7"
  have enc: "scriptint_to_bytes v =
     (if ?top then (length bs + 1, bs @ [if v <s 0 then 0x80 else 0])
      else if v <s 0 then (length bs, bs[length bs - 1 := (bs ! (length bs - 1)) OR 0x80])
      else (length bs, bs))"
    unfolding scriptint_to_bytes_def m_def [symmetric] Let_def bs(1)
    by (simp add: top_bit)
  show ?thesis
  proof (cases ?top)
    case True
    hence l3: "length bs \<le> 3" using bs(5) by simp
    let ?s = "if v <s 0 then 0x80 else 0 :: byte"
    let ?enc = "bs @ [?s]"
    have e: "scriptint_to_bytes v = (length bs + 1, ?enc)" using True enc by simp
    have nb: "\<not> bit m (8 * length bs + 7)"
      unfolding bs(2) [symmetric] by (simp add: bit_le_val)
    have "scriptint_from_bytes (of_nat (length bs + 1) # ?enc @ rest) = (WALLY_OK, v)"
    proof (cases "v <s 0")
      case neg: True
      have lv: "le_val (bs @ [0x80]) = m OR 2 ^ (8 * length bs + 7)"
        by (simp add: le_val_snoc bs(2) push_80)
      have "scriptint_from_bytes (of_nat (length bs + 1) # (bs @ [0x80]) @ rest) =
              (WALLY_OK, - ((m OR 2 ^ (8 * length bs + 7)) XOR 2 ^ (8 * length bs + 7)))"
        using decode_general [of "bs @ [0x80]" "length bs + 1" rest] l3 by (simp add: lv)
      also have "\<dots> = (WALLY_OK, v)" using mv neg by (simp add: or_xor_bit [OF nb])
      finally show ?thesis using neg by simp
    next
      case nonneg: False
      have lv: "le_val (bs @ [0]) = m"
        by (simp add: le_val_snoc bs(2))
      have "scriptint_from_bytes (of_nat (length bs + 1) # (bs @ [0]) @ rest) = (WALLY_OK, m)"
        using decode_general [of "bs @ [0]" "length bs + 1" rest] l3 by (simp add: lv)
      also have "\<dots> = (WALLY_OK, v)" using mv nonneg by simp
      finally show ?thesis using nonneg by simp
    qed
    then show ?thesis using l3 by (simp add: e)
  next
    case False
    show ?thesis
    proof (cases "v <s 0")
      case True
      hence ne: "bs \<noteq> []" using neg_nz bs(3) by simp
      with False have nt: "\<not> bit (last bs) 7" by simp
      let ?enc = "bs[length bs - 1 := (bs ! (length bs - 1)) OR 0x80]"
      have e: "scriptint_to_bytes v = (length bs, ?enc)" using True False enc by simp
      have lv: "le_val ?enc = m OR 2 ^ (8 * (length bs - 1) + 7)"
        using le_val_set_top [OF ne] by (simp add: bs(2))
      have nb: "\<not> bit m (8 * (length bs - 1) + 7)"
        using last_bit_in_value [OF ne] bs(4) nt by (simp add: bs(2))
      have lst: "bit (last ?enc) 7" using ne by (simp add: last_conv_nth bit_simps)
      have "scriptint_from_bytes (of_nat (length bs) # ?enc @ rest) =
              (WALLY_OK, - ((m OR 2 ^ (8 * (length bs - 1) + 7)) XOR 2 ^ (8 * (length bs - 1) + 7)))"
        using decode_general [of ?enc "length bs" rest] bs(4) ne lst lv by simp
      also have "\<dots> = (WALLY_OK, v)" using mv True or_xor_bit [OF nb] by simp
      finally show ?thesis using bs(4) by (simp add: e)
    next
      case nonneg: False
      have e: "scriptint_to_bytes v = (length bs, bs)" using nonneg False enc by simp
      have "scriptint_from_bytes (of_nat (length bs) # bs @ rest) = (WALLY_OK, m)"
        using decode_general [of bs "length bs" rest] bs(4) False by (auto simp add: bs(2))
      also have "\<dots> = (WALLY_OK, v)" using mv nonneg by simp
      finally show ?thesis using bs(4) by (simp add: e)
    qed
  qed
qed

lemma scriptint_get_length_eq: "scriptint_get_length v = fst (scriptint_to_bytes v)"
  unfolding scriptint_get_length_def scriptint_to_bytes_def Let_def
  by (subst get_length_loop [where out = "[]"]) (simp add: case_prod_beta)


lemma scriptint_to_bytes_length: "fst (scriptint_to_bytes v) = length (snd (scriptint_to_bytes v))"
  by (simp add: scriptint_to_bytes_def Let_def split: prod.splits)

text \<open>
  C4. For every signed value \<open>v\<close> with \<open>|v| < 2^31\<close>, the decoder applied to the
  encoder's output preceded by its length byte (whatever follows) returns \<open>v\<close>; the
  length \<open>scriptint_get_length\<close> computes is the length the encoder returns.
  Encoding 0 produces no bytes, encoding 128 the bytes \<open>0x80 0x00\<close> and encoding
  -128 the bytes \<open>0x80 0x80\<close>.
\<close>

theorem scriptint_roundtrip:
  assumes "\<bar>sint v\<bar> < 2 ^ 31"
  shows "scriptint_from_bytes
           (of_nat (fst (scriptint_to_bytes v)) # snd (scriptint_to_bytes v) @ rest) =
         (WALLY_OK, v) \<and>
         scriptint_get_length v = fst (scriptint_to_bytes v) \<and>
         fst (scriptint_to_bytes v) = length (snd (scriptint_to_bytes v)) \<and>
         scriptint_to_bytes 0 = (0, []) \<and>
         scriptint_to_bytes 128 = (2, [0x80, 0x00]) \<and>
         scriptint_to_bytes (- 128) = (2, [0x80, 0x80])"
proof -
  have "scriptint_to_bytes 0 = (0, [])"
    by (simp add: scriptint_to_bytes_def scriptint_to_bytes_loop.simps)
  moreover have "scriptint_to_bytes 128 = (2, [0x80, 0x00])"
    by (simp add: scriptint_to_bytes_def scriptint_to_bytes_loop.simps word_sless_alt)
  moreover have "scriptint_to_bytes (- 128) = (2, [0x80, 0x80])"
    by (simp add: scriptint_to_bytes_def scriptint_to_bytes_loop.simps word_sless_alt)
  ultimately show ?thesis
    using scriptint_decode_encode [OF assms, of rest] scriptint_get_length_eq [of v]
    by blast
qed

theorem scriptint_roundtrip_witness:
  "\<bar>sint (- 128 :: 64 word)\<bar> < 2 ^ 31 \<and>
   scriptint_from_bytes [2, 0x80, 0x80] = (WALLY_OK, - 128)"
proof -
  have h: "\<bar>sint (- 128 :: 64 word)\<bar> < 2 ^ 31" by simp
  show ?thesis using h scriptint_roundtrip [OF h, of "[]"] by (elim conjE) simp
qed

section \<open>Confidential commitment lengths\<close>

text \<open>
  C8. For a non-empty buffer with leading byte \<open>b\<close>, and for the prefix pair of the
  asset, the value or the nonce accessor: the commitment length is 1 when \<open>b\<close> is
  zero; for the explicit marker it is 9 with the value prefixes and 33 with the asset
  or nonce prefixes; it is 33 when \<open>b\<close> is one of the two given prefix bytes; and it
  is 0 for every other leading byte.
\<close>

theorem commitment_len_by_leading_byte:
  assumes "(prefixA, prefixB) \<in>
             {(WALLY_TX_ASSET_CT_ASSET_PREFIX_A, WALLY_TX_ASSET_CT_ASSET_PREFIX_B),
              (WALLY_TX_ASSET_CT_VALUE_PREFIX_A, WALLY_TX_ASSET_CT_VALUE_PREFIX_B),
              (WALLY_TX_ASSET_CT_NONCE_PREFIX_A, WALLY_TX_ASSET_CT_NONCE_PREFIX_B)}"
  shows "(b = 0 \<longrightarrow> get_commitment_len (Some (b # bs)) prefixA prefixB = Some 1) \<and>
         (b = WALLY_TX_ASSET_CT_EXPLICIT_PREFIX \<longrightarrow>
            get_commitment_len (Some (b # bs)) prefixA prefixB =
              Some (if prefixA = WALLY_TX_ASSET_CT_VALUE_PREFIX_A then 9 else 33)) \<and>
         (b = prefixA \<or> b = prefixB \<longrightarrow>
            get_commitment_len (Some (b # bs)) prefixA prefixB = Some 33) \<and>
         (b \<noteq> 0 \<and> b \<noteq> WALLY_TX_ASSET_CT_EXPLICIT_PREFIX \<and> b \<noteq> prefixA \<and> b \<noteq> prefixB \<longrightarrow>
            get_commitment_len (Some (b # bs)) prefixA prefixB = Some 0) \<and>
         confidential_value_length_from_bytes (Some (WALLY_TX_ASSET_CT_EXPLICIT_PREFIX # bs)) = Some 9 \<and>
         confidential_asset_length_from_bytes (Some (WALLY_TX_ASSET_CT_EXPLICIT_PREFIX # bs)) = Some 33 \<and>
         confidential_nonce_length_from_bytes (Some (WALLY_TX_ASSET_CT_EXPLICIT_PREFIX # bs)) = Some 33"
  using assms
  by (auto simp add: get_commitment_len_def confidential_value_length_from_bytes_def
      confidential_asset_length_from_bytes_def confidential_nonce_length_from_bytes_def ct_defs)

theorem commitment_len_by_leading_byte_witness:
  "get_commitment_len (Some [0x09, 0xaa]) WALLY_TX_ASSET_CT_VALUE_PREFIX_A
     WALLY_TX_ASSET_CT_VALUE_PREFIX_B = Some 33 \<and>
   get_commitment_len (Some [0x0c]) WALLY_TX_ASSET_CT_VALUE_PREFIX_A
     WALLY_TX_ASSET_CT_VALUE_PREFIX_B = Some 0"
  using commitment_len_by_leading_byte
          [of WALLY_TX_ASSET_CT_VALUE_PREFIX_A WALLY_TX_ASSET_CT_VALUE_PREFIX_B "0x09" "[0xaa]"]
        commitment_len_by_leading_byte
          [of WALLY_TX_ASSET_CT_VALUE_PREFIX_A WALLY_TX_ASSET_CT_VALUE_PREFIX_B "0x0c" "[]"]
  by (simp add: ct_defs)

text \<open>
  C10. Given the \<open>NULL\<close> pointer, each of the three public commitment length
  accessors returns 1, the length of the null commitment, as it does for a buffer
  whose leading byte is zero.
\<close>

theorem commitment_len_null_pointer:
  "confidential_asset_length_from_bytes None = Some 1 \<and>
   confidential_value_length_from_bytes None = Some 1 \<and>
   confidential_nonce_length_from_bytes None = Some 1 \<and>
   confidential_asset_length_from_bytes None = confidential_asset_length_from_bytes (Some (0 # bs)) \<and>
   confidential_value_length_from_bytes None = confidential_value_length_from_bytes (Some (0 # bs)) \<and>
   confidential_nonce_length_from_bytes None = confidential_nonce_length_from_bytes (Some (0 # bs))"
  by (simp add: get_commitment_len_def confidential_value_length_from_bytes_def
      confidential_asset_length_from_bytes_def confidential_nonce_length_from_bytes_def)

section \<open>Classifying P2PKH scripts\<close>

lemma short_not_multisig: "length bytes < 37 \<Longrightarrow> \<not> scriptpubkey_is_multisig bytes"
  by (simp add: scriptpubkey_is_multisig_def Let_def)

lemma short_not_csv: "length bytes < 76 \<Longrightarrow> \<not> fst (scriptpubkey_is_csv_2of2_then_1 bytes)"
  by (simp add: scriptpubkey_is_csv_2of2_then_1_def Let_def len_defs)

lemma short_not_csv_opt: "length bytes < 76 \<Longrightarrow> \<not> fst (scriptpubkey_is_csv_2of2_then_1_opt bytes)"
  by (simp add: scriptpubkey_is_csv_2of2_then_1_opt_def Let_def len_defs)

lemma get_type_25:
  assumes "length bytes = 25"
  shows "wally_scriptpubkey_get_type bytes =
           (WALLY_OK,
            if bytes ! 0 = OP_RETURN then WALLY_SCRIPT_TYPE_OP_RETURN
            else if scriptpubkey_is_p2pkh bytes then WALLY_SCRIPT_TYPE_P2PKH
            else WALLY_SCRIPT_TYPE_UNKNOWN)"
  using assms short_not_multisig [of bytes] short_not_csv [of bytes] short_not_csv_opt [of bytes]
  by (simp add: wally_scriptpubkey_get_type_def Let_def scriptpubkey_is_op_return_def len_defs)

lemma template_nth:
  assumes "length h = 20"
  shows "length (p2pkh_template h) = 25"
    "p2pkh_template h ! 0 = OP_DUP" "p2pkh_template h ! 1 = OP_HASH160"
    "p2pkh_template h ! 2 = 20" "p2pkh_template h ! 23 = OP_EQUALVERIFY"
    "p2pkh_template h ! 24 = OP_CHECKSIG"
  using assms by (simp_all add: p2pkh_template_def nth_append)

text \<open>
  C7 (amended). Every 25-byte buffer \<open>OP_DUP OP_HASH160 0x14 <20 bytes> OP_EQUALVERIFY
  OP_CHECKSIG\<close> is classified as P2PKH. With one of its five opcode bytes (offsets 0,
  1, 2, 23, 24) replaced by a different byte it is classified as Unknown, except when
  the first byte is replaced by \<open>OP_RETURN\<close>: then it is classified as OP_RETURN.
\<close>

theorem p2pkh_classified_and_flipped:
  assumes "length h = 20" "i \<in> {0, 1, 2, 23, 24}" "b \<noteq> p2pkh_template h ! i"
  shows "wally_scriptpubkey_get_type (p2pkh_template h) = (WALLY_OK, WALLY_SCRIPT_TYPE_P2PKH) \<and>
         wally_scriptpubkey_get_type ((p2pkh_template h)[i := b]) =
           (WALLY_OK, if i = 0 \<and> b = OP_RETURN then WALLY_SCRIPT_TYPE_OP_RETURN
                      else WALLY_SCRIPT_TYPE_UNKNOWN)"
proof -
  note t = template_nth [OF assms(1)]
  have a: "wally_scriptpubkey_get_type (p2pkh_template h) = (WALLY_OK, WALLY_SCRIPT_TYPE_P2PKH)"
    using t by (simp add: get_type_25 scriptpubkey_is_p2pkh_def len_defs opcode_defs)
  have l: "length ((p2pkh_template h)[i := b]) = 25" using t by simp
  have "wally_scriptpubkey_get_type ((p2pkh_template h)[i := b]) =
           (WALLY_OK, if i = 0 \<and> b = OP_RETURN then WALLY_SCRIPT_TYPE_OP_RETURN
                      else WALLY_SCRIPT_TYPE_UNKNOWN)"
    using assms(2,3) t
    by (auto simp add: get_type_25 [OF l] scriptpubkey_is_p2pkh_def len_defs opcode_defs)
  with a show ?thesis by simp
qed

theorem p2pkh_classified_and_flipped_witness:
  "wally_scriptpubkey_get_type (p2pkh_template (replicate 20 0)) =
     (WALLY_OK, WALLY_SCRIPT_TYPE_P2PKH) \<and>
   wally_scriptpubkey_get_type ((p2pkh_template (replicate 20 0))[23 := OP_EQUAL]) =
     (WALLY_OK, WALLY_SCRIPT_TYPE_UNKNOWN)"
proof -
  have h: "length (replicate 20 (0 :: byte)) = 20" "(23 :: nat) \<in> {0, 1, 2, 23, 24}"
    "OP_EQUAL \<noteq> p2pkh_template (replicate 20 0) ! 23"
    by (simp_all add: p2pkh_template_def nth_append opcode_defs)
  show ?thesis using p2pkh_classified_and_flipped [OF h] by simp
qed

text \<open>
  C7 as stated fails: replacing \<open>OP_DUP\<close> by \<open>OP_RETURN\<close> gives a script the
  classifier tags OP_RETURN, not Unknown.
\<close>

theorem p2pkh_flipped_to_op_return_counterexample:
  "OP_RETURN \<noteq> p2pkh_template (replicate 20 0) ! 0 \<and>
   wally_scriptpubkey_get_type ((p2pkh_template (replicate 20 0))[0 := OP_RETURN]) =
     (WALLY_OK, WALLY_SCRIPT_TYPE_OP_RETURN) \<and>
   (WALLY_OK, WALLY_SCRIPT_TYPE_OP_RETURN) \<noteq> (WALLY_OK, WALLY_SCRIPT_TYPE_UNKNOWN)"
  by (simp add: get_type_25 p2pkh_template_def opcode_defs)

section \<open>Classifying multisig scripts\<close>

lemma get_push_size_key:
  assumes "length key = 33 \<or> length key = 65"
  shows "get_push_size (key_push key @ rest) True = Inr 1"
    "get_push_size (key_push key @ rest) False = Inr (length key)"
proof -
  have u: "unat (of_nat (length key) :: byte) = length key"
    using assms by (auto simp add: unat_of_nat)
  hence "(of_nat (length key) :: byte) < 76"
    using assms by (auto simp add: word_less_nat_alt)
  thus "get_push_size (key_push key @ rest) True = Inr 1"
    "get_push_size (key_push key @ rest) False = Inr (length key)"
    using u by (simp_all add: get_push_size_def key_push_def Let_def)
qed

lemma multisig_pushes_keys:
  assumes "\<forall>key \<in> set keys. length key = 33 \<or> length key = 65"
  shows "multisig_pushes (length keys) (concat (map key_push keys) @ [a, b])"
  using assms
proof (induction keys)
  case Nil
  then show ?case by simp
next
  case (Cons key keys)
  hence k: "length key = 33 \<or> length key = 65" by simp
  have d: "drop (1 + length key) (key_push key @ concat (map key_push keys) @ [a, b]) =
           concat (map key_push keys) @ [a, b]"
    by (simp add: key_push_def)
  have l: "length (key_push key) = 1 + length key" by (simp add: key_push_def)
  show ?case
    using Cons k get_push_size_key [OF k, of "concat (map key_push keys) @ [a, b]"] d
    by (auto simp add: is_pk_len_def len_defs l)
qed

lemma op_n_val:
  assumes "1 \<le> n" "n \<le> 16"
  shows "script_is_op_n (op_n n) False = Some n" "op_n n \<noteq> OP_RETURN"
proof -
  have e: "op_n n = of_nat (80 + n)" by (simp add: op_n_def OP_1_def)
  have "unat (word_of_nat (80 + n) :: byte) = (80 + n) mod 2 ^ LENGTH(8)"
    by (rule unat_of_nat)
  also have "\<dots> = 80 + n" using assms by simp
  finally have u: "unat (op_n n) = 80 + n" by (simp only: e)
  have "OP_1 \<le> op_n n" "op_n n \<le> OP_16"
    using assms u by (simp_all add: word_le_nat_alt opcode_defs)
  thus "script_is_op_n (op_n n) False = Some n"
    using u assms by (simp add: script_is_op_n_def opcode_defs)
  have "unat (op_n n) \<noteq> unat OP_RETURN" using u assms by (simp add: opcode_defs)
  thus "op_n n \<noteq> OP_RETURN" by auto
qed

text \<open>
  C9. The multisig matcher does not compare the threshold with the key count: a
  script \<open>OP_m <k pushes of 33- or 65-byte keys> OP_k OP_CHECKMULTISIG\<close> with \<open>m\<close>
  and \<open>k\<close> in 1..16 and \<open>m > k\<close> is classified as Multisig.
\<close>

theorem multisig_threshold_not_compared:
  assumes "1 \<le> m" "m \<le> 16" "1 \<le> length keys" "length keys \<le> 16" "length keys < m"
    and "\<forall>key \<in> set keys. length key = 33 \<or> length key = 65"
  shows "wally_scriptpubkey_get_type (multisig_template m keys) =
           (WALLY_OK, WALLY_SCRIPT_TYPE_MULTISIG)"
proof -
  let ?s = "multisig_template m keys"
  obtain key rest where keys: "keys = key # rest" using assms(3) by (cases keys) auto
  hence "length key = 33 \<or> length key = 65" using assms(6) by simp
  hence "34 \<le> length (concat (map key_push keys))" by (auto simp add: keys key_push_def)
  hence len: "37 \<le> length ?s" by (simp add: multisig_template_def)
  have l: "length ?s = length (concat (map key_push keys)) + 3"
    by (simp add: multisig_template_def)
  have first: "?s ! 0 = op_n m" by (simp add: multisig_template_def)
  have last: "?s ! (length ?s - 1) = OP_CHECKMULTISIG"
    unfolding l by (simp add: multisig_template_def nth_append)
  have last2: "?s ! (length ?s - 2) = op_n (length keys)"
    unfolding l by (simp add: multisig_template_def nth_append)
  have d: "drop 1 ?s = concat (map key_push keys) @ [op_n (length keys), OP_CHECKMULTISIG]"
    by (simp add: multisig_template_def)
  have "scriptpubkey_is_multisig ?s"
    using len op_n_val(1) [OF assms(1,2)] op_n_val(1) [OF assms(3,4)]
      multisig_pushes_keys [OF assms(6)] first last last2 d
    by (simp add: scriptpubkey_is_multisig_def Let_def)
  moreover have "\<not> scriptpubkey_is_op_return ?s"
    using op_n_val(2) [OF assms(1,2)] by (simp add: scriptpubkey_is_op_return_def first)
  moreover have "?s \<noteq> []" using len by auto
  ultimately show ?thesis
    by (simp add: wally_scriptpubkey_get_type_def Let_def)
qed

theorem multisig_threshold_not_compared_witness:
  "wally_scriptpubkey_get_type (multisig_template 3 [replicate 33 2, replicate 65 4]) =
     (WALLY_OK, WALLY_SCRIPT_TYPE_MULTISIG)"
proof -
  have h: "(1 :: nat) \<le> 3" "(3 :: nat) \<le> 16"
    "1 \<le> length [replicate 33 (2 :: byte), replicate 65 4]"
    "length [replicate 33 (2 :: byte), replicate 65 4] \<le> 16"
    "length [replicate 33 (2 :: byte), replicate 65 4] < 3"
    "\<forall>key \<in> set [replicate 33 (2 :: byte), replicate 65 4]. length key = 33 \<or> length key = 65"
    by simp_all
  show ?thesis using multisig_threshold_not_compared [OF h] .
qed

section \<open>CSV-recovery round trip\<close>

lemma scriptint_144:
  "scriptint_get_length 144 = 2"
  "scriptint_to_bytes 144 = (2, [0x90, 0x00])"
  by (simp_all add: scriptint_get_length_def scriptint_to_bytes_def
      scriptint_get_length_loop.simps scriptint_to_bytes_loop.simps word_sless_alt)

lemma store_0: "length bs \<le> length buf \<Longrightarrow> take (length bs) (store buf 0 bs) = bs"
  by (simp add: store_def)

lemma store_length: "off + length bs \<le> length buf \<Longrightarrow> length (store buf off bs) = length buf"
  by (simp add: store_def)

lemma csv_build_144:
  assumes "length main_key = 33" "length recovery_key = 33" "80 \<le> length bytes_out"
  shows "wally_scriptpubkey_csv_2of2_then_1_from_bytes (main_key @ recovery_key) 144 0 bytes_out =
           (WALLY_OK, 80,
            store bytes_out 0 (csv_2of2_then_1_script main_key [0x90, 0x00] recovery_key))"
  using assms
  by (simp add: wally_scriptpubkey_csv_2of2_then_1_from_bytes_def Let_def scriptint_144
      len_defs csv_2of2_then_1_script_def)

lemma scriptint_decode_144: "scriptint_from_bytes (2 # 0x90 # 0x00 # rest) = (WALLY_OK, 144)"
proof -
  have "[0 ..< 2] = [0, Suc 0]" by (simp add: upt_rec)
  thus ?thesis by (simp add: scriptint_from_bytes_def)
qed

lemma csv_script_144_parts:
  assumes "length main_key = 33" "length recovery_key = 33"
  defines "s \<equiv> csv_2of2_then_1_script main_key [0x90, 0x00] recovery_key"
  shows "length s = 80" "s ! 0 = OP_DEPTH" "s ! 1 = OP_1SUB" "s ! 2 = OP_IF" "s ! 3 = 33"
    "s ! 37 = OP_CHECKSIGVERIFY" "s ! 38 = OP_ELSE"
    "drop 39 s = 2 # 0x90 # 0x00 #
       ([OP_CHECKSEQUENCEVERIFY, OP_DROP, OP_ENDIF, 33] @ recovery_key @ [OP_CHECKSIG])"
  using assms(1,2) unfolding s_def csv_2of2_then_1_script_def
  by (simp_all add: nth_append)

lemma csv_is_144:
  assumes "length main_key = 33" "length recovery_key = 33"
  shows "scriptpubkey_is_csv_2of2_then_1
           (csv_2of2_then_1_script main_key [0x90, 0x00] recovery_key) = (True, 144)"
proof -
  note p = csv_script_144_parts [OF assms]
  have t: "([OP_CHECKSEQUENCEVERIFY, OP_DROP, OP_ENDIF, 33] @ recovery_key @ [OP_CHECKSIG]) ! 37
             = OP_CHECKSIG"
    using assms(2) by (simp add: nth_append)
  show ?thesis
    unfolding scriptpubkey_is_csv_2of2_then_1_def Let_def
    using p t assms(2)
    by (simp add: len_defs scriptint_decode_144 word_sless_alt)
qed

text \<open>
  C2. For every pair of 33-byte keys and the delay 144, the CSV-recovery template-A
  builder succeeds on a buffer of at least 80 bytes; the classifier tags the bytes it
  produced Csv2of2Then1 and the delay accessor returns 144 for them.
\<close>

theorem csv_2of2_then_1_roundtrip_144:
  assumes "length main_key = 33" "length recovery_key = 33" "80 \<le> length bytes_out"
  shows "case wally_scriptpubkey_csv_2of2_then_1_from_bytes (main_key @ recovery_key) 144 0 bytes_out
         of (r, written, out) \<Rightarrow>
           r = WALLY_OK \<and>
           wally_scriptpubkey_get_type (take written out) =
             (WALLY_OK, WALLY_SCRIPT_TYPE_CSV2OF2_1) \<and>
           wally_scriptpubkey_csv_blocks_from_csv_2of2_then_1 (take written out) =
             (WALLY_OK, 144)"
proof -
  let ?s = "csv_2of2_then_1_script main_key [0x90, 0x00] recovery_key"
  note p = csv_script_144_parts [OF assms(1,2)]
  have t: "take 80 (store bytes_out 0 ?s) = ?s"
    using store_0 [of ?s bytes_out] assms(3) p(1) by simp
  have ne: "?s \<noteq> []" using p(1) by auto
  have nr: "\<not> scriptpubkey_is_op_return ?s"
    using p by (simp add: scriptpubkey_is_op_return_def opcode_defs)
  have nm: "\<not> scriptpubkey_is_multisig ?s"
    using p by (simp add: scriptpubkey_is_multisig_def Let_def script_is_op_n_def opcode_defs)
  have ty: "wally_scriptpubkey_get_type ?s = (WALLY_OK, WALLY_SCRIPT_TYPE_CSV2OF2_1)"
    using ne nr nm csv_is_144 [OF assms(1,2)]
    by (simp add: wally_scriptpubkey_get_type_def Let_def)
  have bl: "wally_scriptpubkey_csv_blocks_from_csv_2of2_then_1 ?s = (WALLY_OK, 144)"
    using ne csv_is_144 [OF assms(1,2)]
    by (simp add: wally_scriptpubkey_csv_blocks_from_csv_2of2_then_1_def)
  show ?thesis
    by (simp add: csv_build_144 [OF assms] t ty bl)
qed

theorem csv_2of2_then_1_roundtrip_144_witness:
  "case wally_scriptpubkey_csv_2of2_then_1_from_bytes (replicate 33 2 @ replicate 33 3) 144 0
          (replicate 80 0)
   of (r, written, out) \<Rightarrow>
     r = WALLY_OK \<and>
     wally_scriptpubkey_get_type (take written out) = (WALLY_OK, WALLY_SCRIPT_TYPE_CSV2OF2_1) \<and>
     wally_scriptpubkey_csv_blocks_from_csv_2of2_then_1 (take written out) = (WALLY_OK, 144)"
proof -
  have h: "length (replicate 33 (2 :: byte)) = 33" "length (replicate 33 (3 :: byte)) = 33"
    "80 \<le> length (replicate 80 (0 :: byte))"
    by simp_all
  show ?thesis using csv_2of2_then_1_roundtrip_144 [OF h] .
qed

section \<open>Sorted multisig scripts\<close>

lemma memcmp_le:
  "length a = n \<Longrightarrow> length b = n \<Longrightarrow> (memcmp a b n \<le> 0) = (a \<le> b)"
proof (induction n arbitrary: a b)
  case 0
  then show ?case by simp
next
  case (Suc n)
  from Suc.prems obtain x a' y b' where ab: "a = x # a'" "b = y # b'"
    by (auto simp add: length_Suc_conv)
  show ?case
  proof (cases "x = y")
    case True
    with Suc ab show ?thesis by simp
  next
    case False
    have "(int (unat x) - int (unat y) \<le> 0) = (x \<le> y)"
      by (simp add: word_le_def)
    also have "\<dots> = (x < y)" using False by auto
    finally show ?thesis using False ab by simp
  qed
qed

lemma insert_by_insort:
  assumes "length x = 33" "\<forall>y \<in> set ys. length y = 33"
  shows "insert_by pubkey_compare x ys = insort x ys"
  using assms(2)
proof (induction ys)
  case Nil
  then show ?case by simp
next
  case (Cons y ys)
  hence "(pubkey_compare x y \<le> 0) = (x \<le> y)"
    using assms(1) by (simp add: pubkey_compare_def EC_PUBLIC_KEY_LEN_def memcmp_le)
  with Cons show ?case by simp
qed

lemma insertion_sort_keys:
  assumes "\<forall>k \<in> set ks. length k = 33"
  shows "foldr (insert_by pubkey_compare) ks [] = sort ks"
  using assms
proof (induction ks)
  case Nil
  then show ?case by simp
next
  case (Cons k ks)
  hence "\<forall>y \<in> set (sort ks). length y = 33" by simp
  with Cons show ?case by (simp add: insert_by_insort sort_key_def)
qed

lemma elements_concat:
  assumes "\<forall>k \<in> set ks. length k = n"
  shows "elements (concat ks @ rest) (length ks) n = ks"
  using assms by (induction ks) simp_all

lemma length_concat_keys:
  assumes "\<forall>k \<in> set ks. length k = n"
  shows "length (concat ks) = length ks * n"
  using assms by (induction ks) simp_all

lemma qsort_keys:
  assumes "\<forall>k \<in> set ks. length k = 33"
  shows "qsort (concat ks) (length ks) 33 pubkey_compare = concat (sort ks)"
  using elements_concat [OF assms, of "[]"] length_concat_keys [OF assms] assms
  by (simp add: qsort_def insertion_sort_keys)

lemma multisig_sorted_keys:
  assumes "\<forall>k \<in> set ks. length k = 33" "length ks = 3"
  shows "wally_scriptpubkey_multisig_from_bytes (concat ks) 2 WALLY_SCRIPT_MULTISIG_SORTED bytes_out =
          (if length bytes_out = 0 then (WALLY_EINVAL, 0, bytes_out)
           else if length bytes_out < 105 then (WALLY_OK, 105, bytes_out)
           else (WALLY_OK, 105,
                 store bytes_out 0
                   ([ucast (value_to_op_n 2)] @
                    concat (map (\<lambda>i. 33 # take 33 (drop (i * 33) (concat (sort ks)))) [0 ..< 3]) @
                    [ucast (value_to_op_n 3), OP_CHECKMULTISIG])))"
  using length_concat_keys [OF assms(1)] qsort_keys [OF assms(1)] assms(2)
  by (simp add: wally_scriptpubkey_multisig_from_bytes_def Let_def len_defs flag_defs)

text \<open>
  C6. For three 33-byte public keys and threshold 2, the multisig builder called with
  the sorted flag returns the same result (return code, length, bytes in the same
  output buffer) for every order in which the three keys are passed; with a buffer of
  at least 105 bytes the call succeeds.
\<close>

theorem multisig_sorted_order_independent:
  assumes "length k1 = 33" "length k2 = 33" "length k3 = 33"
    and "mset ks = mset [k1, k2, k3]"
  shows "wally_scriptpubkey_multisig_from_bytes (concat ks) 2 WALLY_SCRIPT_MULTISIG_SORTED bytes_out =
         wally_scriptpubkey_multisig_from_bytes (k1 @ k2 @ k3) 2 WALLY_SCRIPT_MULTISIG_SORTED bytes_out \<and>
         (105 \<le> length bytes_out \<longrightarrow>
            fst (wally_scriptpubkey_multisig_from_bytes (concat ks) 2 WALLY_SCRIPT_MULTISIG_SORTED
                   bytes_out) = WALLY_OK)"
proof -
  have s: "set ks = set [k1, k2, k3]" using assms(4) by (rule mset_eq_setD)
  have l: "length ks = 3" using mset_eq_length [OF assms(4)] by simp
  have a: "\<forall>k \<in> set ks. length k = 33" using s assms(1-3) by auto
  have b: "\<forall>k \<in> set [k1, k2, k3]. length k = 33" using assms(1-3) by simp
  have "sort ks = sort [k1, k2, k3]"
    using assms(4) by (metis sorted_list_of_multiset_mset)
  moreover have l3: "length [k1, k2, k3] = 3" by simp
  ultimately have
        "wally_scriptpubkey_multisig_from_bytes (concat ks) 2 WALLY_SCRIPT_MULTISIG_SORTED bytes_out =
         wally_scriptpubkey_multisig_from_bytes (concat [k1, k2, k3]) 2 WALLY_SCRIPT_MULTISIG_SORTED
           bytes_out"
    by (simp only: multisig_sorted_keys [OF a l] multisig_sorted_keys [OF b l3])
  moreover have "105 \<le> length bytes_out \<longrightarrow>
            fst (wally_scriptpubkey_multisig_from_bytes (concat ks) 2 WALLY_SCRIPT_MULTISIG_SORTED
                   bytes_out) = WALLY_OK"
    by (simp add: multisig_sorted_keys [OF a l])
  ultimately show ?thesis by simp
qed

theorem multisig_sorted_order_independent_witness:
  "wally_scriptpubkey_multisig_from_bytes (concat [replicate 33 3, replicate 33 1, replicate 33 2]) 2
     WALLY_SCRIPT_MULTISIG_SORTED (replicate 105 0) =
   wally_scriptpubkey_multisig_from_bytes (replicate 33 1 @ replicate 33 2 @ replicate 33 3) 2
     WALLY_SCRIPT_MULTISIG_SORTED (replicate 105 0)"
proof -
  have h: "length (replicate 33 (1 :: byte)) = 33" "length (replicate 33 (2 :: byte)) = 33"
    "length (replicate 33 (3 :: byte)) = 33"
    "mset [replicate 33 (3 :: byte), replicate 33 1, replicate 33 2] =
     mset [replicate 33 1, replicate 33 2, replicate 33 3]"
    by simp_all
  show ?thesis using multisig_sorted_order_independent [OF h, of "replicate 105 0"] by blast
qed

section \<open>The frame of the peg-in rewriter\<close>

lemma store_0_length: "length xs \<le> length buf \<Longrightarrow> length (store buf 0 xs) = length buf"
  by (simp add: store_def)

lemma push_opcode_length:
  "length (if n < 76 then [of_nat n]
           else if n < 256 then [OP_PUSHDATA1, of_nat n]
           else if n < 65536 then OP_PUSHDATA2 # cpu_to_le16 n
           else OP_PUSHDATA4 # cpu_to_le32 n :: byte list) = calc_push_opcode_size n"
  by (simp add: calc_push_opcode_size_def cpu_to_le16_def cpu_to_le32_def)

lemma push_from_bytes_length:
  "length (snd (snd (wally_script_push_from_bytes c bytes flags buf))) = length buf"
proof (cases "\<not> script_flags_ok flags 0 \<or> length buf = 0")
  case True
  then show ?thesis by (auto simp add: wally_script_push_from_bytes_def Let_def)
next
  case False
  obtain r b n where h:
    "(if flags AND WALLY_SCRIPT_HASH160 \<noteq> 0 then
        (case wally_hash160 c bytes of (r, buff) \<Rightarrow> (r, buff, HASH160_LEN))
      else if flags AND WALLY_SCRIPT_SHA256 \<noteq> 0 then
        (case wally_sha256 c bytes of (r, buff) \<Rightarrow> (r, buff, SHA256_LEN))
      else (WALLY_OK, bytes, length bytes)) = (r, b, n)"
    by (metis prod_cases3)
  let ?opcode = "if n < 76 then [of_nat n]
           else if n < 256 then [OP_PUSHDATA1, of_nat n]
           else if n < 65536 then OP_PUSHDATA2 # cpu_to_le16 n
           else OP_PUSHDATA4 # cpu_to_le32 n :: byte list"
  have r: "wally_script_push_from_bytes c bytes flags buf =
     (if r \<noteq> WALLY_OK then (r, 0, buf)
      else if length buf < n + calc_push_opcode_size n
        then (WALLY_OK, n + calc_push_opcode_size n, buf)
      else (WALLY_OK, n + calc_push_opcode_size n, store buf 0 (?opcode @ take n b)))"
    using False unfolding wally_script_push_from_bytes_def Let_def h by simp
  have "length (?opcode @ take n b) \<le> n + calc_push_opcode_size n"
    using push_opcode_length [of n] by (simp only: length_append) simp
  hence "length (store buf 0 (?opcode @ take n b)) = length buf"
    if "\<not> length buf < n + calc_push_opcode_size n"
    using that by (intro store_0_length) linarith
  thus ?thesis unfolding r by simp
qed

lemma pegin_tweak_key_length:
  "length (snd (pegin_tweak_key c s script key q)) = length q"
proof -
  have "length q' = length q"
    if "wally_script_push_from_bytes c ser 0 q = (r, n, q')" for ser r n q'
    using push_from_bytes_length [of c ser 0 q] that by simp
  thus ?thesis
    unfolding pegin_tweak_key_def
    by (auto split: option.splits prod.splits)
qed

lemma store_nth_before: "i < off \<Longrightarrow> off \<le> length buf \<Longrightarrow> store buf off xs ! i = buf ! i"
  by (simp add: store_def nth_append)

lemma store_nth_in:
  "j < length xs \<Longrightarrow> off \<le> length buf \<Longrightarrow> store buf off xs ! (off + j) = xs ! j"
  by (simp add: store_def nth_append)

lemma push_sizes_pos:
  "get_push_size p True = Inr opcode_size \<Longrightarrow> 0 < opcode_size"
  unfolding get_push_size_def Let_def
  by (auto split: if_splits sum.splits prod.splits)

text \<open>One step of the walk: a chunk of \<open>n\<close> bytes is stored, the rest follows by induction.\<close>

lemma frame_step:
  assumes ih: "length buf' = length buf1 \<and>
         (\<forall>i < off + n. buf' ! i = buf1 ! i) \<and>
         (\<forall>j < length (drop n p). \<not> rest_mask ! j \<longrightarrow> buf' ! (off + n + j) = drop n p ! j)"
    and l1: "length buf1 = length buf"
    and before: "\<forall>i < off. buf1 ! i = buf ! i"
    and chunk: "\<forall>j < n. \<not> flag \<longrightarrow> buf1 ! (off + j) = p ! j"
    and n: "0 < n" "n \<le> length p"
  shows "length buf' = length buf \<and>
         (\<forall>i < off. buf' ! i = buf ! i) \<and>
         (\<forall>j < length p. \<not> (replicate n flag @ rest_mask) ! j \<longrightarrow> buf' ! (off + j) = p ! j)"
proof (intro conjI allI impI)
  show "length buf' = length buf" using ih l1 by simp
next
  fix i assume "i < off"
  thus "buf' ! i = buf ! i" using ih before by simp
next
  fix j assume j: "j < length p" "\<not> (replicate n flag @ rest_mask) ! j"
  show "buf' ! (off + j) = p ! j"
  proof (cases "j < n")
    case True
    hence "\<not> flag" using j(2) by (simp add: nth_append)
    hence "buf1 ! (off + j) = p ! j" using chunk True by simp
    moreover have "buf' ! (off + j) = buf1 ! (off + j)" using ih True by simp
    ultimately show ?thesis by simp
  next
    case False
    define k where "k = j - n"
    have jk: "j = n + k" using False by (simp add: k_def)
    have "k < length (drop n p)" using j(1) jk by simp
    moreover have "\<not> rest_mask ! k" using j(2) jk by (simp add: nth_append)
    ultimately have "buf' ! (off + n + k) = drop n p ! k" using ih by blast
    thus ?thesis using jk j(1) n(2) by (simp add: add.assoc)
  qed
qed

lemma pegin_loop_frame:
  assumes "pegin_loop c s script flags p off buf found = (WALLY_OK, buf')"
    and "off + length p \<le> length buf" "flags = 0"
  shows "length buf' = length buf \<and>
         (\<forall>i < off. buf' ! i = buf ! i) \<and>
         (\<forall>j < length p. \<not> key_push_mask p found ! j \<longrightarrow> buf' ! (off + j) = p ! j)"
  using assms
proof (induction c s script flags p off buf found rule: pegin_loop.induct)
  case (1 c s script flags p off buf found)
  note loop = pegin_loop.simps [of c s script flags p off buf found]
  note mask = key_push_mask.simps [of p found]
  have off_le: "off \<le> length buf" using "1.prems"(2) by simp
  show ?case
  proof (cases "p = []")
    case True
    with "1.prems" show ?thesis by (simp add: pegin_loop.simps [of _ _ _ _ "[]"])
  next
    case ne: False
    show ?thesis
    proof (cases "get_push_size p False")
      case (Inl e)
      let ?buf1 = "store buf off [p ! 0]"
      let ?found1 = "if p ! 0 = OP_ELSE \<and> flags = 0 then True else found"
      have sz: "script_get_push_size_from_bytes p = Inl e"
        using Inl by (simp add: script_get_push_size_from_bytes_def)
      have run: "pegin_loop c s script flags (drop 1 p) (off + 1) ?buf1 ?found1 = (WALLY_OK, buf')"
        using "1.prems"(1) ne sz by (simp add: loop)
      have l1: "length ?buf1 = length buf"
        using "1.prems"(2) ne by (cases p) (auto simp add: store_def)
      have fit: "off + 1 + length (drop 1 p) \<le> length ?buf1"
        using "1.prems"(2) ne l1 by (cases p) auto
      note ih = "1.IH"(1) [OF ne sz run fit "1.prems"(3)]
      have m: "key_push_mask p found = replicate 1 False @ key_push_mask (drop 1 p) ?found1"
        using ne Inl "1.prems"(3) by (auto simp add: mask)
      have before: "\<forall>i < off. ?buf1 ! i = buf ! i"
        using off_le by (simp add: store_nth_before)
      have chunk: "\<forall>j < 1. \<not> False \<longrightarrow> ?buf1 ! (off + j) = p ! j"
        using store_nth_in [of 0 "[p ! 0]" off buf] off_le by simp
      have "0 < (1 :: nat)" "1 \<le> length p" using ne by (cases p, auto)+
      from frame_step [OF ih l1 before chunk this] show ?thesis unfolding m .
    next
      case (Inr size_out)
      hence sz: "script_get_push_size_from_bytes p = Inr size_out"
        by (simp add: script_get_push_size_from_bytes_def)
      show ?thesis
      proof (cases "get_push_size p True")
        case (Inl e)
        hence "script_get_push_opcode_size_from_bytes p = Inl e"
          by (simp add: script_get_push_opcode_size_from_bytes_def)
        hence "pegin_loop c s script flags p off buf found = (e, buf)"
          using ne sz by (simp add: loop)
        moreover have "e \<noteq> WALLY_OK"
          using Inl unfolding get_push_size_def Let_def
          by (auto split: if_splits sum.splits prod.splits)
        ultimately show ?thesis using "1.prems"(1) by simp
      next
        case osz: (Inr opcode_size)
        hence os: "script_get_push_opcode_size_from_bytes p = Inr opcode_size"
          by (simp add: script_get_push_opcode_size_from_bytes_def)
        define n where "n = size_out + opcode_size"
        have npos: "0 < n" using push_sizes_pos [OF osz] by (simp add: n_def)
        have nle: "n \<le> length p"
        proof (rule ccontr)
          assume "\<not> n \<le> length p"
          hence "pegin_loop c s script flags p off buf found = (WALLY_EINVAL, buf)"
            using ne sz os by (simp add: loop n_def Let_def)
          thus False using "1.prems"(1) by simp
        qed
        hence nlt: "\<not> length p < n" by simp
        let ?key = "opcode_size = 1 \<and> size_out = EC_PUBLIC_KEY_LEN \<and> \<not> found"
        have m: "key_push_mask p found =
                   replicate n (opcode_size = 1 \<and> size_out = 33 \<and> \<not> found) @
                   key_push_mask (drop n p) found"
          using ne Inr osz by (simp add: mask n_def)
        show ?thesis
        proof (cases ?key)
          case True
          obtain r q' where tw: "pegin_tweak_key c s script (window p 1 EC_PUBLIC_KEY_LEN)
                                   (window buf off (length p)) = (r, q')"
            by (cases "pegin_tweak_key c s script (window p 1 EC_PUBLIC_KEY_LEN)
                         (window buf off (length p))") auto
          let ?buf1 = "store buf off q'"
          have step: "pegin_loop c s script flags p off buf found =
                  (if r \<noteq> WALLY_OK then (r, ?buf1)
                   else pegin_loop c s script flags (drop n p) (off + n) ?buf1 found)"
            unfolding loop using ne sz os nlt True tw by (simp add: n_def Let_def)
          have rok: "\<not> r \<noteq> WALLY_OK"
          proof
            assume "r \<noteq> WALLY_OK"
            hence "pegin_loop c s script flags p off buf found = (r, ?buf1)" using step by simp
            with \<open>r \<noteq> WALLY_OK\<close> show False using "1.prems"(1) by simp
          qed
          hence run: "pegin_loop c s script flags (drop n p) (off + n) ?buf1 found = (WALLY_OK, buf')"
            using step "1.prems"(1) by simp
          have "length q' = length (window buf off (length p))"
            using pegin_tweak_key_length [of c s script "window p 1 EC_PUBLIC_KEY_LEN"
                "window buf off (length p)"] tw by simp
          hence lq: "length q' = length p" using "1.prems"(2) by (simp add: window_def)
          have l1: "length ?buf1 = length buf"
            using "1.prems"(2) lq by (simp add: store_def)
          have fit: "off + n + length (drop n p) \<le> length ?buf1"
            using "1.prems"(2) l1 nle by simp
          note ih = "1.IH"(2) [OF ne sz os n_def nlt True tw [symmetric] rok run fit "1.prems"(3)]
          have before: "\<forall>i < off. ?buf1 ! i = buf ! i"
            using off_le by (simp add: store_nth_before)
          have chunk: "\<forall>j < n. \<not> (opcode_size = 1 \<and> size_out = 33 \<and> \<not> found) \<longrightarrow>
                          ?buf1 ! (off + j) = p ! j"
            using True by (simp add: EC_PUBLIC_KEY_LEN_def)
          from frame_step [OF ih l1 before chunk npos nle] show ?thesis unfolding m .
        next
          case False
          let ?buf1 = "store buf off (take n p)"
          have "pegin_loop c s script flags p off buf found =
                  pegin_loop c s script flags (drop n p) (off + n) ?buf1 found"
            unfolding loop using ne sz os nlt False by (auto simp add: n_def Let_def)
          hence run: "pegin_loop c s script flags (drop n p) (off + n) ?buf1 found = (WALLY_OK, buf')"
            using "1.prems"(1) by simp
          have l1: "length ?buf1 = length buf"
            using "1.prems"(2) nle by (simp add: store_def)
          have fit: "off + n + length (drop n p) \<le> length ?buf1"
            using "1.prems"(2) l1 nle by simp
          note ih = "1.IH"(3) [OF ne sz os n_def nlt False run fit "1.prems"(3)]
          have before: "\<forall>i < off. ?buf1 ! i = buf ! i"
            using off_le by (simp add: store_nth_before)
          have chunk: "\<forall>j < n. \<not> (opcode_size = 1 \<and> size_out = 33 \<and> \<not> found) \<longrightarrow>
                          ?buf1 ! (off + j) = p ! j"
            using store_nth_in [of _ "take n p" off buf] off_le nle by simp
          from frame_step [OF ih l1 before chunk npos nle] show ?thesis unfolding m .
        qed
      qed
    qed
  qed
qed

text \<open>
  What the mask marks: nothing once \<open>OP_ELSE\<close> has been met, and otherwise only
  bytes of a 34-byte stretch of the script that starts with the push opcode 33.
\<close>

lemma unat_33: "unat (b :: byte) = 33 \<Longrightarrow> b = 33"
proof -
  assume "unat b = 33"
  hence "(of_nat (unat b) :: byte) = of_nat 33" by simp
  thus ?thesis by simp
qed

lemma get_push_size_direct:
  assumes "get_push_size p True = Inr 1" "get_push_size p False = Inr 33"
  shows "p ! 0 = 33 \<and> 34 \<le> length p"
proof -
  have "unat (p ! 0) = 33 \<and> 34 \<le> length p"
    using assms unfolding get_push_size_def Let_def
    by (auto split: if_splits sum.splits prod.splits)
  thus ?thesis using unat_33 by blast
qed

lemma get_push_size_fits:
  assumes "get_push_size p True = Inr opcode_size" "get_push_size p False = Inr size_out"
  shows "size_out + opcode_size \<le> length p"
  using assms unfolding get_push_size_def Let_def
  by (auto split: if_splits sum.splits prod.splits)

lemma key_push_mask_length: "length (key_push_mask p seen) = length p"
proof (induction p seen rule: key_push_mask.induct)
  case (1 p seen)
  show ?case
  proof (cases "p = []")
    case True
    then show ?thesis by (simp add: key_push_mask.simps [of "[]"])
  next
    case ne: False
    hence l: "Suc (length p - Suc 0) = length p" by (cases p) auto
    show ?thesis
    proof (cases "get_push_size p False")
      case (Inl e)
      with 1(1) [OF ne Inl] ne l show ?thesis by (simp add: key_push_mask.simps [of p])
    next
      case (Inr size_out)
      show ?thesis
      proof (cases "get_push_size p True")
        case (Inl e)
        with 1(2) [OF ne Inr Inl] ne Inr l show ?thesis by (simp add: key_push_mask.simps [of p])
      next
        case osz: (Inr opcode_size)
        with 1(3) [OF ne Inr osz] ne Inr get_push_size_fits [OF osz Inr]
        show ?thesis by (simp add: key_push_mask.simps [of p])
      qed
    qed
  qed
qed

lemma key_push_mask_after_else: "key_push_mask p True = replicate (length p) False"
proof (induction p "True" rule: key_push_mask.induct)
  case (1 p)
  show ?case
  proof (cases "p = []")
    case True
    then show ?thesis by (simp add: key_push_mask.simps [of "[]"])
  next
    case ne: False
    hence l: "Suc (length p - Suc 0) = length p" by (cases p) auto
    show ?thesis
    proof (cases "get_push_size p False")
      case (Inl e)
      with 1(1) [OF ne Inl] ne l show ?thesis
        by (simp add: key_push_mask.simps [of p] replicate_Suc [symmetric] del: replicate_Suc)
    next
      case (Inr size_out)
      show ?thesis
      proof (cases "get_push_size p True")
        case (Inl e)
        with 1(2) [OF ne Inr Inl] ne Inr l show ?thesis
          by (simp add: key_push_mask.simps [of p] replicate_Suc [symmetric] del: replicate_Suc)
      next
        case osz: (Inr opcode_size)
        with 1(3) [OF ne Inr osz] ne Inr get_push_size_fits [OF osz Inr]
        show ?thesis
          by (simp add: key_push_mask.simps [of p] replicate_add [symmetric])
      qed
    qed
  qed
qed

lemma key_push_mask_in_key_push:
  assumes "i < length p" "key_push_mask p seen ! i"
  shows "\<not> seen \<and> (\<exists>j \<le> i. i < j + 34 \<and> j + 34 \<le> length p \<and> p ! j = 33)"
  using assms
proof (induction p seen arbitrary: i rule: key_push_mask.induct)
  case (1 p seen)
  from "1.prems"(1) have ne: "p \<noteq> []" by auto
  note mask = key_push_mask.simps [of p seen]
  have shift: "\<not> seen' \<and> (\<exists>j \<le> k. k < j + 34 \<and> j + 34 \<le> length (drop n p) \<and> drop n p ! j = 33)
       \<Longrightarrow> (seen' \<or> \<not> seen) \<Longrightarrow> i = n + k \<Longrightarrow> n \<le> length p
       \<Longrightarrow> \<not> seen \<and> (\<exists>j \<le> i. i < j + 34 \<and> j + 34 \<le> length p \<and> p ! j = 33)" for seen' k n
  proof -
    assume a: "\<not> seen' \<and> (\<exists>j \<le> k. k < j + 34 \<and> j + 34 \<le> length (drop n p) \<and> drop n p ! j = 33)"
      and s: "seen' \<or> \<not> seen" and i: "i = n + k" and n: "n \<le> length p"
    then obtain j where j: "j \<le> k" "k < j + 34" "j + 34 \<le> length (drop n p)" "drop n p ! j = 33"
      by blast
    have "n + j \<le> i \<and> i < (n + j) + 34 \<and> (n + j) + 34 \<le> length p \<and> p ! (n + j) = 33"
      using j i n by auto
    thus ?thesis using a s by blast
  qed
  show ?case
  proof (cases "get_push_size p False")
    case (Inl e)
    hence m: "key_push_mask p seen = False # key_push_mask (drop 1 p) (seen \<or> p ! 0 = OP_ELSE)"
      using ne by (simp add: mask)
    with "1.prems"(2) obtain k where k: "i = Suc k" by (cases i) auto
    hence "k < length (drop 1 p)" "key_push_mask (drop 1 p) (seen \<or> p ! 0 = OP_ELSE) ! k"
      using "1.prems" m by auto
    from "1.IH"(1) [OF ne Inl this] show ?thesis
      using k ne by (intro shift [of _ k 1]) (cases p, auto)+
  next
    case (Inr size_out)
    show ?thesis
    proof (cases "get_push_size p True")
      case (Inl e)
      hence m: "key_push_mask p seen = False # key_push_mask (drop 1 p) (seen \<or> p ! 0 = OP_ELSE)"
        using ne Inr by (simp add: mask)
      with "1.prems"(2) obtain k where k: "i = Suc k" by (cases i) auto
      hence "k < length (drop 1 p)" "key_push_mask (drop 1 p) (seen \<or> p ! 0 = OP_ELSE) ! k"
        using "1.prems" m by auto
      from "1.IH"(2) [OF ne Inr Inl this] show ?thesis
        using k ne by (intro shift [of _ k 1]) (cases p, auto)+
    next
      case osz: (Inr opcode_size)
      define n where "n = size_out + opcode_size"
      have nle: "n \<le> length p" using get_push_size_fits [OF osz Inr] by (simp add: n_def)
      have m: "key_push_mask p seen =
                 replicate n (opcode_size = 1 \<and> size_out = 33 \<and> \<not> seen) @
                 key_push_mask (drop n p) seen"
        using ne Inr osz by (simp add: mask n_def)
      show ?thesis
      proof (cases "i < n")
        case True
        hence k: "opcode_size = 1" "size_out = 33" "\<not> seen"
          using "1.prems"(2) m by (simp_all add: nth_append)
        hence "p ! 0 = 33 \<and> 34 \<le> length p" using get_push_size_direct osz Inr by simp
        moreover have "n = 34" using k by (simp add: n_def)
        ultimately show ?thesis using True k(3) by (intro conjI exI [of _ 0]) auto
      next
        case False
        define k where "k = i - n"
        have ik: "i = n + k" using False by (simp add: k_def)
        have "k < length (drop n p)" "key_push_mask (drop n p) seen ! k"
          using "1.prems" m ik by (simp_all add: nth_append)
        from "1.IH"(3) [OF ne Inr osz this [unfolded n_def]] show ?thesis
          using ik nle by (intro shift [of seen k n]) (simp_all add: n_def)
      qed
    qed
  qed
qed

text \<open>
  C5. When the peg-in contract-script rewriter succeeds, the redeem script and the
  contract script are non-empty, the reported length and the length of the output are
  the length of the redeem script, and every byte that is not part of a 33-byte direct
  public-key push before the first \<open>OP_ELSE\<close> opcode is in the output, unchanged, at
  its original offset. In particular a byte that differs from the input lies in a
  34-byte stretch of the input that starts with the push opcode 33.
\<close>

theorem pegin_rewrite_frame:
  assumes "wally_elements_pegin_contract_script_from_bytes c s redeem_script script flags bytes_out =
             (WALLY_OK, written, out)"
  shows "redeem_script \<noteq> [] \<and> script \<noteq> [] \<and>
         written = length redeem_script \<and> length out = length redeem_script \<and>
         (\<forall>i < length redeem_script.
            \<not> key_push_mask redeem_script False ! i \<longrightarrow> out ! i = redeem_script ! i) \<and>
         (\<forall>i < length redeem_script.
            out ! i \<noteq> redeem_script ! i \<longrightarrow>
            (\<exists>j \<le> i. i < j + 34 \<and> j + 34 \<le> length redeem_script \<and> redeem_script ! j = 33))"
proof -
  have ok: "redeem_script \<noteq> []" "script \<noteq> []" "flags = 0" "length bytes_out = length redeem_script"
    using assms unfolding wally_elements_pegin_contract_script_from_bytes_def Let_def
    by (auto split: if_splits)
  obtain r buf where l: "pegin_loop c s script flags redeem_script 0 bytes_out False = (r, buf)"
    by (cases "pegin_loop c s script flags redeem_script 0 bytes_out False") auto
  have res: "r = WALLY_OK" "written = length redeem_script" "out = buf"
    using assms ok l unfolding wally_elements_pegin_contract_script_from_bytes_def Let_def
    by (auto split: if_splits)
  have "0 + length redeem_script \<le> length bytes_out" using ok(4) by simp
  from pegin_loop_frame [OF l [unfolded res(1)] this ok(3)]
  have frame: "length out = length redeem_script"
    "\<forall>i < length redeem_script.
       \<not> key_push_mask redeem_script False ! i \<longrightarrow> out ! i = redeem_script ! i"
    using ok res by simp_all
  have "\<exists>j \<le> i. i < j + 34 \<and> j + 34 \<le> length redeem_script \<and> redeem_script ! j = 33"
    if "i < length redeem_script" "out ! i \<noteq> redeem_script ! i" for i
  proof -
    have "key_push_mask redeem_script False ! i" using frame(2) that by blast
    from key_push_mask_in_key_push [OF that(1) this] show ?thesis by blast
  qed
  with frame ok res show ?thesis by blast
qed

lemma pegin_example:
  "wally_elements_pegin_contract_script_from_bytes test_ext test_secp
     (33 # replicate 33 2 @ [OP_ELSE, 33] @ replicate 33 4) [1] 0 (replicate 69 0) =
   (WALLY_OK, 69, 33 # replicate 33 3 @ [OP_ELSE, 33] @ replicate 33 4)"
  by code_simp

theorem pegin_rewrite_frame_witness:
  "wally_elements_pegin_contract_script_from_bytes test_ext test_secp
     (33 # replicate 33 2 @ [OP_ELSE, 33] @ replicate 33 4) [1] 0 (replicate 69 0) =
   (WALLY_OK, 69, 33 # replicate 33 3 @ [OP_ELSE, 33] @ replicate 33 4) \<and>
   (33 # replicate 33 3 @ [OP_ELSE, 33] @ replicate 33 4) ! 34 =
   (33 # replicate 33 2 @ [OP_ELSE, 33] @ replicate 33 4) ! 34 \<and>
   (33 # replicate 33 3 @ [OP_ELSE, 33] @ replicate 33 4) ! 40 =
   (33 # replicate 33 2 @ [OP_ELSE, 33] @ replicate 33 4) ! 40"
proof -
  let ?r = "33 # replicate 33 2 @ [OP_ELSE, 33] @ replicate 33 4 :: byte list"
  let ?out = "33 # replicate 33 3 @ [OP_ELSE, 33] @ replicate 33 4 :: byte list"
  have m: "\<not> key_push_mask ?r False ! 34" "\<not> key_push_mask ?r False ! 40"
    by code_simp+
  have i: "34 < length ?r" "40 < length ?r" by simp_all
  from pegin_rewrite_frame [OF pegin_example]
  have "\<forall>i < length ?r. \<not> key_push_mask ?r False ! i \<longrightarrow> ?out ! i = ?r ! i"
    by blast
  with m i have "?out ! 34 = ?r ! 34" "?out ! 40 = ?r ! 40" by blast+
  with pegin_example show ?thesis by blast
qed

section \<open>The sizing probe of the builders\<close>

text \<open>
  Each builder is first brought into a closed form: with valid arguments its result is
  given by the length of the output buffer alone, and a buffer that is long enough
  receives the script at its start. The lemmas on \<open>store\<close> and \<open>window\<close> join
  the pieces a builder stores one after the other into one store of the whole script.
\<close>

lemma store_0_eq: "length xs \<le> length buf \<Longrightarrow> store buf 0 xs = xs @ drop (length xs) buf"
  by (simp add: store_def)

lemma store_store:
  assumes "off' = off + length xs" "off + length xs + length ys \<le> length buf"
  shows "store (store buf off xs) off' ys = store buf off (xs @ ys)"
  using assms by (simp add: store_def ac_simps)

lemma store_prepend:
  assumes "off = length xs" "length xs + length ys \<le> length buf"
  shows "store (store buf off ys) 0 xs = store buf 0 (xs @ ys)"
  using assms by (simp add: store_def)

lemma drop_window:
  assumes "k \<le> n" "off + n \<le> length buf"
  shows "drop k (window buf off n) @ drop (off + n) buf = drop (off + k) buf"
proof -
  have "drop (off + k) buf = drop k (drop off buf)" by (simp add: add.commute)
  also have "drop off buf = take n (drop off buf) @ drop n (drop off buf)"
    by (simp only: append_take_drop_id)
  also have "drop k (take n (drop off buf) @ drop n (drop off buf)) =
             drop k (take n (drop off buf)) @ drop n (drop off buf)"
    using assms by simp
  finally show ?thesis by (simp add: window_def ac_simps)
qed

lemma store_window:
  assumes "length xs \<le> n" "off + n \<le> length buf"
  shows "store buf off (xs @ drop (length xs) (window buf off n)) = store buf off xs"
proof -
  have l: "length (window buf off n) = n" using assms(2) by (simp add: window_def)
  have "store buf off (xs @ drop (length xs) (window buf off n)) =
        take off buf @ xs @ (drop (length xs) (window buf off n) @ drop (off + n) buf)"
    using assms l by (simp add: store_def)
  also have "\<dots> = take off buf @ xs @ drop (off + length xs) buf"
    by (simp only: drop_window [OF assms])
  finally show ?thesis by (simp add: store_def)
qed

lemma data_push_length: "length (data_push data) = script_get_push_size (length data)"
  by (simp add: data_push_def Let_def script_get_push_size_def calc_push_opcode_size_def)

lemma data_push_nonempty: "data_push data \<noteq> []"
  by (simp add: data_push_def Let_def)

lemma push_plain:
  "wally_script_push_from_bytes c data 0 buf =
     (if buf = [] then (WALLY_EINVAL, 0, buf)
      else if length buf < length (data_push data)
        then (WALLY_OK, length (data_push data), buf)
      else (WALLY_OK, length (data_push data),
            data_push data @ drop (length (data_push data)) buf))"
proof -
  have e: "(if length data < 76 then [of_nat (length data)]
            else if length data < 256 then [OP_PUSHDATA1, of_nat (length data)]
            else if length data < 65536 then OP_PUSHDATA2 # cpu_to_le16 (length data)
            else OP_PUSHDATA4 # cpu_to_le32 (length data)) @ data = data_push data"
    by (simp add: data_push_def Let_def cpu_to_le16_def cpu_to_le32_def)
  have l: "length data + calc_push_opcode_size (length data) = length (data_push data)"
    by (simp add: data_push_length script_get_push_size_def)
  show ?thesis
    unfolding wally_script_push_from_bytes_def Let_def
    by (simp add: script_flags_ok_def flag_defs e l store_0_eq del: append_assoc)
qed

lemma push_hashed:
  assumes "flags = 0 \<or> flags = WALLY_SCRIPT_HASH160 \<and> hash160_ok c data \<or>
           flags = WALLY_SCRIPT_SHA256 \<and> sha256_ok c data"
  shows "wally_script_push_from_bytes c data flags buf =
     (if buf = [] then (WALLY_EINVAL, 0, buf)
      else if length buf < length (data_push (payload c data flags))
        then (WALLY_OK, length (data_push (payload c data flags)), buf)
      else (WALLY_OK, length (data_push (payload c data flags)),
            data_push (payload c data flags) @
            drop (length (data_push (payload c data flags))) buf))"
proof -
  consider (plain) "flags = 0"
    | (h160) "flags = WALLY_SCRIPT_HASH160" "hash160_ok c data"
    | (sha) "flags = WALLY_SCRIPT_SHA256" "sha256_ok c data"
    using assms by blast
  then show ?thesis
  proof cases
    case plain
    have "payload c data 0 = data" by (simp add: payload_def)
    thus ?thesis using plain by (simp add: push_plain)
  next
    case h160
    obtain h where h: "wally_hash160 c data = (WALLY_OK, h)" "length h = 20"
      using h160(2) by (cases "wally_hash160 c data") (auto simp add: hash160_ok_def)
    have p: "payload c data flags = h"
      using h160(1) h by (simp add: payload_def flag_defs)
    have d: "data_push h = 20 # h" using h(2) by (simp add: data_push_def)
    show ?thesis
      unfolding p d wally_script_push_from_bytes_def Let_def
      using h h160(1)
      by (simp add: script_flags_ok_def flag_defs len_defs calc_push_opcode_size_def store_0_eq)
  next
    case sha
    obtain h where h: "wally_sha256 c data = (WALLY_OK, h)" "length h = 32"
      using sha(2) by (cases "wally_sha256 c data") (auto simp add: sha256_ok_def)
    have p: "payload c data flags = h"
      using sha(1) h by (simp add: payload_def flag_defs)
    have d: "data_push h = 32 # h" using h(2) by (simp add: data_push_def)
    show ?thesis
      unfolding p d wally_script_push_from_bytes_def Let_def
      using h sha(1)
      by (simp add: script_flags_ok_def flag_defs len_defs calc_push_opcode_size_def store_0_eq)
  qed
qed

lemma push_hashed_fits:
  assumes "flags = 0 \<or> flags = WALLY_SCRIPT_HASH160 \<and> hash160_ok c data \<or>
           flags = WALLY_SCRIPT_SHA256 \<and> sha256_ok c data"
    and "length (data_push (payload c data flags)) \<le> length buf"
  shows "wally_script_push_from_bytes c data flags buf =
           (WALLY_OK, length (data_push (payload c data flags)),
            data_push (payload c data flags) @
            drop (length (data_push (payload c data flags))) buf)"
proof -
  have "buf \<noteq> []" using assms(2) data_push_nonempty [of "payload c data flags"] by auto
  thus ?thesis using assms(2) by (simp add: push_hashed [OF assms(1)])
qed

lemma push_plain_fits:
  assumes "length (data_push data) \<le> length buf"
  shows "wally_script_push_from_bytes c data 0 buf =
           (WALLY_OK, length (data_push data), data_push data @ drop (length (data_push data)) buf)"
proof -
  have "buf \<noteq> []" using assms data_push_nonempty [of data] by auto
  thus ?thesis using assms by (simp add: push_plain)
qed

lemma payload_20:
  assumes "flags = 0 \<and> length bytes = 20 \<or> flags = WALLY_SCRIPT_HASH160 \<and> hash160_ok c bytes"
  shows "length (payload c bytes flags) = 20" "data_push (payload c bytes flags) = 20 # payload c bytes flags"
proof -
  show l: "length (payload c bytes flags) = 20"
    using assms by (auto simp add: payload_def hash160_ok_def flag_defs)
  show "data_push (payload c bytes flags) = 20 # payload c bytes flags"
    using l by (simp add: data_push_def)
qed

lemma p2pkh_produces:
  assumes "p2pkh_args_ok c bytes flags" "25 \<le> length big"
  shows "produces (wally_scriptpubkey_p2pkh_from_bytes c bytes flags) big (p2pkh_script c bytes flags)"
proof -
  let ?h = "payload c bytes flags"
  have f: "script_flags_ok flags 0" "flags AND WALLY_SCRIPT_SHA256 = 0" "bytes \<noteq> []"
    using assms(1) by (auto simp add: p2pkh_args_ok_def script_flags_ok_def flag_defs)
  have v: "\<not> (if flags AND WALLY_SCRIPT_HASH160 \<noteq> 0
               then length bytes \<noteq> EC_PUBLIC_KEY_LEN \<and> length bytes \<noteq> EC_PUBLIC_KEY_UNCOMPRESSED_LEN
               else length bytes \<noteq> HASH160_LEN)"
    using assms(1) by (auto simp add: p2pkh_args_ok_def flag_defs len_defs)
  have a: "flags = 0 \<and> length bytes = 20 \<or> flags = WALLY_SCRIPT_HASH160 \<and> hash160_ok c bytes"
    using assms(1) by (auto simp add: p2pkh_args_ok_def)
  hence a': "flags = 0 \<or> flags = WALLY_SCRIPT_HASH160 \<and> hash160_ok c bytes \<or>
           flags = WALLY_SCRIPT_SHA256 \<and> sha256_ok c bytes" by blast
  note pl = payload_20 [OF a]
  let ?out1 = "store big 0 [OP_DUP, OP_HASH160]"
  let ?w = "window ?out1 2 (length big - 4)"
  have l1: "length ?out1 = length big" using assms(2) by (simp add: store_length)
  have lw: "length ?w = length big - 4" using assms(2) l1 by (simp add: window_def)
  have "length (data_push ?h) \<le> length ?w" using assms(2) lw pl by simp
  from push_hashed_fits [OF a' this]
  have push: "wally_script_push_from_bytes c bytes flags ?w =
                (WALLY_OK, 21, (20 # ?h) @ drop 21 ?w)"
    using pl by simp
  have s2: "store ?out1 2 ((20 # ?h) @ drop 21 ?w) = store ?out1 2 (20 # ?h)"
    using store_window [of "20 # ?h" "length big - 4" 2 ?out1] assms(2) l1 pl(1) by simp
  have s3: "store ?out1 2 (20 # ?h) = store big 0 ([OP_DUP, OP_HASH160] @ 20 # ?h)"
    using assms(2) pl(1) by (intro store_store) simp_all
  have s4: "store (store big 0 ([OP_DUP, OP_HASH160] @ 20 # ?h)) 23 [OP_EQUALVERIFY, OP_CHECKSIG] =
            store big 0 (([OP_DUP, OP_HASH160] @ 20 # ?h) @ [OP_EQUALVERIFY, OP_CHECKSIG])"
    using assms(2) pl(1) by (intro store_store) simp_all
  have t: "[OP_DUP, OP_HASH160] @ (20 # ?h) @ [OP_EQUALVERIFY, OP_CHECKSIG] = p2pkh_script c bytes flags"
    by (simp add: p2pkh_script_def p2pkh_template_def)
  have lt: "length (p2pkh_script c bytes flags) = 25"
    using pl(1) by (simp add: p2pkh_script_def p2pkh_template_def)
  have big: "big \<noteq> []" "\<not> length big < 25" using assms(2) by auto
  have "wally_scriptpubkey_p2pkh_from_bytes c bytes flags big =
          (WALLY_OK, 25, store big 0 (p2pkh_script c bytes flags))"
    unfolding wally_scriptpubkey_p2pkh_from_bytes_def Let_def
    using f v big by (simp add: WALLY_SCRIPTPUBKEY_P2PKH_LEN_def push s2 s3 s4 t del: append.simps)
  thus ?thesis
    using assms(2) lt by (simp add: produces_def store_0_eq)
qed

lemma push_at:
  assumes "flags = 0 \<or> flags = WALLY_SCRIPT_HASH160 \<and> hash160_ok c data \<or>
           flags = WALLY_SCRIPT_SHA256 \<and> sha256_ok c data"
    and "length (data_push (payload c data flags)) \<le> n" "off + n \<le> length buf"
  shows "\<exists>sub.
           (\<forall>b i m f. b = buf \<longrightarrow> i = off \<longrightarrow> m = n \<longrightarrow> f = flags \<longrightarrow>
              wally_script_push_from_bytes c data f (window b i m) =
                (WALLY_OK, length (data_push (payload c data flags)), sub)) \<and>
           store buf off sub = store buf off (data_push (payload c data flags))"
proof -
  let ?p = "data_push (payload c data flags)"
  have l: "length (window buf off n) = n" using assms(3) by (simp add: window_def)
  hence "length ?p \<le> length (window buf off n)" using assms(2) by simp
  from push_hashed_fits [OF assms(1) this]
  have "wally_script_push_from_bytes c data flags (window buf off n) =
          (WALLY_OK, length ?p, ?p @ drop (length ?p) (window buf off n))" .
  moreover have "store buf off (?p @ drop (length ?p) (window buf off n)) = store buf off ?p"
    using assms(2,3) by (rule store_window)
  ultimately show ?thesis by blast
qed

lemma p2sh_produces:
  assumes "p2sh_args_ok c bytes flags" "23 \<le> length big"
  shows "produces (wally_scriptpubkey_p2sh_from_bytes c bytes flags) big (p2sh_script c bytes flags)"
proof -
  let ?h = "payload c bytes flags"
  have f: "flags AND NOT WALLY_SCRIPT_HASH160 = 0" "bytes \<noteq> []"
    "\<not> (\<not> (flags AND WALLY_SCRIPT_HASH160 \<noteq> 0) \<and> length bytes \<noteq> HASH160_LEN)"
    using assms(1) by (auto simp add: p2sh_args_ok_def flag_defs len_defs)
  have a: "flags = 0 \<and> length bytes = 20 \<or> flags = WALLY_SCRIPT_HASH160 \<and> hash160_ok c bytes"
    using assms(1) by (auto simp add: p2sh_args_ok_def)
  hence a': "flags = 0 \<or> flags = WALLY_SCRIPT_HASH160 \<and> hash160_ok c bytes \<or>
           flags = WALLY_SCRIPT_SHA256 \<and> sha256_ok c bytes" by blast
  note pl = payload_20 [OF a]
  let ?out1 = "store big 0 [OP_HASH160]"
  have l1: "length ?out1 = length big" using assms(2) by (simp add: store_length)
  have "length (data_push ?h) \<le> length big - 2" "1 + (length big - 2) \<le> length ?out1"
    using assms(2) l1 pl by simp_all
  from push_at [OF a' this] obtain sub where
    push: "\<forall>b i m f. b = ?out1 \<longrightarrow> i = 1 \<longrightarrow> m = length big - 2 \<longrightarrow> f = flags \<longrightarrow>
             wally_script_push_from_bytes c bytes f (window b i m) = (WALLY_OK, 21, sub)"
    and s2: "store ?out1 1 sub = store ?out1 1 (20 # ?h)"
    using pl by auto
  have s3: "store ?out1 1 (20 # ?h) = store big 0 ([OP_HASH160] @ 20 # ?h)"
    using assms(2) pl(1) by (intro store_store) simp_all
  have s4: "store (store big 0 ([OP_HASH160] @ 20 # ?h)) 22 [OP_EQUAL] =
            store big 0 (([OP_HASH160] @ 20 # ?h) @ [OP_EQUAL])"
    using assms(2) pl(1) by (intro store_store) simp_all
  have t: "([OP_HASH160] @ 20 # ?h) @ [OP_EQUAL] = p2sh_script c bytes flags"
    by (simp add: p2sh_script_def p2sh_template_def)
  have lt: "length (p2sh_script c bytes flags) = 23"
    using pl(1) by (simp add: p2sh_script_def p2sh_template_def)
  have big: "big \<noteq> []" "\<not> length big < 23" using assms(2) by auto
  have "wally_scriptpubkey_p2sh_from_bytes c bytes flags big =
          (WALLY_OK, 23, store (store ?out1 1 sub) 22 [OP_EQUAL])"
    unfolding wally_scriptpubkey_p2sh_from_bytes_def Let_def
    using f big by (simp add: WALLY_SCRIPTPUBKEY_P2SH_LEN_def push)
  also have "store (store ?out1 1 sub) 22 [OP_EQUAL] = store big 0 (p2sh_script c bytes flags)"
    by (simp only: s2 s3 s4 t)
  finally show ?thesis
    using assms(2) lt by (simp add: produces_def store_0_eq)
qed

lemma op_return_produces:
  assumes "op_return_args_ok bytes flags" "length (op_return_template bytes) \<le> length big"
  shows "produces (wally_scriptpubkey_op_return_from_bytes c bytes flags) big
           (op_return_template bytes)"
proof -
  have f: "flags = 0" "\<not> length bytes > WALLY_MAX_OP_RETURN_LEN"
    using assms(1) by (simp_all add: op_return_args_ok_def len_defs)
  have lt: "length (op_return_template bytes) = 1 + length (data_push bytes)"
    by (simp add: op_return_template_def)
  have p0: "payload c bytes 0 = bytes" by (simp add: payload_def)
  have "length (data_push (payload c bytes 0)) \<le> length big - 1" "1 + (length big - 1) \<le> length big"
    using assms(2) lt p0 by simp_all
  from push_at [of 0 c bytes, OF _ this] obtain sub where
    push: "\<forall>b i m f. b = big \<longrightarrow> i = 1 \<longrightarrow> m = length big - 1 \<longrightarrow> f = 0 \<longrightarrow>
             wally_script_push_from_bytes c bytes f (window b i m) =
               (WALLY_OK, length (data_push bytes), sub)"
    and s2: "store big 1 sub = store big 1 (data_push bytes)"
    using p0 by auto
  have s3: "store (store big 1 (data_push bytes)) 0 [OP_RETURN] =
            store big 0 ([OP_RETURN] @ data_push bytes)"
    using assms(2) lt by (intro store_prepend) simp_all
  have big: "big \<noteq> []" using assms(2) lt by auto
  have "wally_scriptpubkey_op_return_from_bytes c bytes flags big =
          (WALLY_OK, length (data_push bytes) + 1, store (store big 1 sub) 0 [OP_RETURN])"
    unfolding wally_scriptpubkey_op_return_from_bytes_def Let_def
    using f big by (simp add: push)
  also have "store (store big 1 sub) 0 [OP_RETURN] = store big 0 (op_return_template bytes)"
    by (simp only: s2 s3) (simp add: op_return_template_def)
  finally show ?thesis
    using assms(2) lt by (simp add: produces_def store_0_eq)
qed

lemma byte_and_ff: "(b :: byte) AND 0xff = b"
proof -
  have "b AND mask 8 = b"
    by (rule bit_eqI) (auto simp add: bit_simps dest: bit_imp_le_length)
  moreover have "(0xff :: byte) = mask 8" by (simp add: mask_eq_exp_minus_1)
  ultimately show ?thesis by (simp only:)
qed

lemma value_to_op_n_nat:
  assumes "1 \<le> n" "n \<le> 16"
  shows "(ucast (value_to_op_n (of_nat n)) :: byte) = op_n n"
proof -
  have "unat (of_nat n :: 64 word) = n mod 2 ^ LENGTH(64)" by (rule unat_of_nat)
  hence "unat (of_nat n :: 64 word) = n" using assms by simp
  hence nz: "(of_nat n :: 64 word) \<noteq> 0" using assms by auto
  have "value_to_op_n (of_nat n) = of_nat (80 + n)"
    using nz by (simp add: value_to_op_n_def OP_1_def)
  moreover have "op_n n = of_nat (80 + n)" by (simp add: op_n_def OP_1_def)
  moreover have "(ucast (of_nat (80 + n) :: 64 word) :: byte) = of_nat (80 + n)"
    by (simp only: unsigned_of_nat word_of_nat_eq_iff) simp
  ultimately show ?thesis by (simp only:)
qed

lemma value_to_op_n_word:
  assumes "1 \<le> unat v" "unat v \<le> 16"
  shows "(ucast (value_to_op_n (ucast (v :: 32 word))) :: byte) = op_n (unat v)"
proof -
  have "(ucast v :: 64 word) = of_nat (unat v)" by simp
  thus ?thesis using value_to_op_n_nat [OF assms] by simp
qed

lemma version_opcode_eq:
  assumes "version \<le> 16"
  shows "(ucast (value_to_op_n (ucast (version :: 32 word))) :: byte) = version_opcode (unat version)"
proof (cases "version = 0")
  case True
  then show ?thesis by (simp add: value_to_op_n_def version_opcode_def OP_0_def)
next
  case False
  hence "unat version \<noteq> 0" by (simp add: unat_eq_0)
  moreover have "unat version \<le> 16" using assms by (simp add: word_le_nat_alt)
  ultimately show ?thesis
    using value_to_op_n_word [of version] by (simp add: version_opcode_def)
qed

lemma witness_program_produces:
  assumes "witness_program_args_ok c bytes version flags"
    and "length (witness_program_script c bytes version flags) \<le> length big"
  shows "produces (wally_witness_program_from_bytes_and_version c bytes version flags) big
           (witness_program_script c bytes version flags)"
proof -
  define hf where "hf = flags AND NOT WALLY_SCRIPT_AS_PUSH"
  define prog where "prog = payload c bytes hf"
  define vop where "vop = version_opcode (unat version)"
  have v: "\<not> version > 16" using assms(1) by (auto simp add: witness_program_args_ok_def)
  have vo: "(ucast (value_to_op_n (ucast version)) :: byte) = vop"
    unfolding vop_def using assms(1)
    by (intro version_opcode_eq) (simp add: witness_program_args_ok_def)
  have f1: "script_flags_ok flags WALLY_SCRIPT_AS_PUSH"
    using assms(1) by (auto simp add: witness_program_args_ok_def script_flags_ok_def flag_defs)
  have f2: "hf = 0 \<or> hf = WALLY_SCRIPT_HASH160 \<and> hash160_ok c bytes \<or>
            hf = WALLY_SCRIPT_SHA256 \<and> sha256_ok c bytes"
    unfolding hf_def using assms(1) by (auto simp add: witness_program_args_ok_def flag_defs)
  have f3: "\<not> (if flags AND ALL_SCRIPT_HASH_FLAGS \<noteq> 0 then length bytes = 0
               else if version = 0 \<and> length bytes \<noteq> HASH160_LEN \<and> length bytes \<noteq> SHA256_LEN
                 then True
               else length bytes < 2 \<or> length bytes > WALLY_WITNESSSCRIPT_MAX_LEN - 2)"
    using assms(1)
    by (auto simp add: witness_program_args_ok_def flag_defs len_defs split: if_splits)
  have pl: "length prog \<le> 40"
    unfolding prog_def hf_def using assms(1)
    by (auto simp add: witness_program_args_ok_def flag_defs payload_def hash160_ok_def
        sha256_ok_def split: if_splits)
  hence lp: "length (data_push prog) = length prog + 1"
    by (simp add: data_push_def)
  show ?thesis
  proof (cases "flags AND WALLY_SCRIPT_AS_PUSH \<noteq> 0")
    case False
    have sc: "witness_program_script c bytes version flags = [vop] @ data_push prog"
      using False
      by (simp add: witness_program_script_def witness_program_template_def Let_def
          prog_def hf_def vop_def)
    have len: "length prog + 2 \<le> length big" using assms(2) lp unfolding sc by simp
    let ?out1 = "store big 0 [vop]"
    have l1: "length ?out1 = length big" using len by (simp add: store_length)
    have "length (data_push (payload c bytes hf)) \<le> length big - 0 - 1"
      "1 + (length big - 0 - 1) \<le> length ?out1"
      using len lp l1 by (simp_all add: prog_def)
    from push_at [OF f2 this] obtain sub where
      push: "\<forall>b i m f. b = ?out1 \<longrightarrow> i = 1 \<longrightarrow> m = length big - 0 - 1 \<longrightarrow> f = hf \<longrightarrow>
               wally_script_push_from_bytes c bytes f (window b i m) =
                 (WALLY_OK, length prog + 1, sub)"
      and s2: "store ?out1 1 sub = store ?out1 1 (data_push prog)"
      using lp by (auto simp add: prog_def)
    note push' = push [unfolded hf_def]
    have s3: "store ?out1 1 (data_push prog) = store big 0 ([vop] @ data_push prog)"
      using len lp by (intro store_store) simp_all
    have big: "big \<noteq> []" using len by auto
    have "wally_witness_program_from_bytes_and_version c bytes version flags big =
            (WALLY_OK, length prog + 1 + 1, store ?out1 1 sub)"
      unfolding wally_witness_program_from_bytes_and_version_def Let_def
      using v f1 f3 False big vo by (simp add: push')
    also have "store ?out1 1 sub = store big 0 (witness_program_script c bytes version flags)"
      by (simp only: s2 s3 sc)
    finally show ?thesis
      using assms(2) lp by (simp add: produces_def store_0_eq sc)
  next
    case True
    let ?s = "[vop] @ data_push prog"
    have ls: "length ?s = length prog + 2" using lp by simp
    hence ds: "data_push ?s = [of_nat (length prog + 2)] @ ?s"
      using pl by (simp add: data_push_def)
    have sc: "witness_program_script c bytes version flags = [of_nat (length prog + 2)] @ ?s"
      using True ds
      by (simp add: witness_program_script_def witness_program_template_def Let_def
          prog_def hf_def vop_def)
    have len: "length prog + 3 \<le> length big" using assms(2) lp unfolding sc by simp
    let ?out1 = "store big 1 [vop]"
    have l1: "length ?out1 = length big" using len by (simp add: store_length)
    have "length (data_push (payload c bytes hf)) \<le> length big - 1 - 1"
      "(1 + 1) + (length big - 1 - 1) \<le> length ?out1"
      using len lp l1 by (simp_all add: prog_def)
    from push_at [OF f2 this] obtain sub where
      push: "\<forall>b i m f. b = ?out1 \<longrightarrow> i = 1 + 1 \<longrightarrow> m = length big - 1 - 1 \<longrightarrow> f = hf \<longrightarrow>
               wally_script_push_from_bytes c bytes f (window b i m) =
                 (WALLY_OK, length prog + 1, sub)"
      and s2: "store ?out1 (1 + 1) sub = store ?out1 (1 + 1) (data_push prog)"
      using lp by (auto simp add: prog_def)
    note push' = push [unfolded hf_def]
    have s3: "store ?out1 (1 + 1) (data_push prog) = store big 1 ?s"
      using len lp by (intro store_store) simp_all
    have s4: "store (store big 1 ?s) 0 [of_nat (length prog + 2)] =
              store big 0 ([of_nat (length prog + 2)] @ ?s)"
      using len lp by (intro store_prepend) simp_all
    have big: "big \<noteq> []" "\<not> length big < 2" using len by auto
    have "wally_witness_program_from_bytes_and_version c bytes version flags big =
            (WALLY_OK, length prog + 1 + 1 + 1,
             store (store ?out1 (1 + 1) sub) 0 [of_nat (length prog + 1 + 1) AND 0xff])"
      unfolding wally_witness_program_from_bytes_and_version_def Let_def
      using v f1 f3 True big vo by (simp add: push')
    also have "store (store ?out1 (1 + 1) sub) 0 [of_nat (length prog + 1 + 1) AND 0xff] =
               store big 0 (witness_program_script c bytes version flags)"
      unfolding byte_and_ff using s4 by (simp only: s2 s3 sc) simp
    finally show ?thesis
      using assms(2) lp by (simp add: produces_def store_0_eq sc)
  qed
qed

lemma csv_delay_length:
  "scriptint_get_length v = length (snd (scriptint_to_bytes v))"
  by (simp add: scriptint_get_length_eq scriptint_to_bytes_length)

lemma csv_script_length:
  assumes "length bytes = 66"
  shows "length (csv_script bytes csv_blocks) = 78 + scriptint_get_length (ucast csv_blocks)"
    "length (csv_opt_script bytes csv_blocks) = 75 + scriptint_get_length (ucast csv_blocks)"
  using assms
  by (simp_all add: csv_script_def csv_opt_script_def csv_2of2_then_1_script_def
      csv_2of2_then_1_opt_script_def csv_delay_length)

lemma csv_build:
  assumes "csv_args_ok bytes csv_blocks flags"
  shows "wally_scriptpubkey_csv_2of2_then_1_from_bytes bytes csv_blocks flags buf =
           (if length buf < length (csv_script bytes csv_blocks)
            then (WALLY_OK, length (csv_script bytes csv_blocks), buf)
            else (WALLY_OK, length (csv_script bytes csv_blocks),
                  store buf 0 (csv_script bytes csv_blocks)))"
proof -
  have b: "\<not> csv_blocks < 17" "\<not> csv_blocks > 0xffff" "length bytes = 66" "flags = 0"
    using assms by (auto simp add: csv_args_ok_def)
  have t: "take 33 (drop 33 bytes) = drop 33 bytes" using b(3) by simp
  show ?thesis
    unfolding wally_scriptpubkey_csv_2of2_then_1_from_bytes_def Let_def
      csv_script_length(1) [OF b(3)]
    using b
    by (simp add: len_defs csv_script_def csv_2of2_then_1_script_def byte_and_ff t
        csv_delay_length)
qed

lemma csv_opt_build:
  assumes "csv_args_ok bytes csv_blocks flags"
  shows "wally_scriptpubkey_csv_2of2_then_1_from_bytes_opt bytes csv_blocks flags buf =
           (if length buf < length (csv_opt_script bytes csv_blocks)
            then (WALLY_OK, length (csv_opt_script bytes csv_blocks), buf)
            else (WALLY_OK, length (csv_opt_script bytes csv_blocks),
                  store buf 0 (csv_opt_script bytes csv_blocks)))"
proof -
  have b: "\<not> csv_blocks < 17" "\<not> csv_blocks > 0xffff" "length bytes = 66" "flags = 0"
    using assms by (auto simp add: csv_args_ok_def)
  have t: "take 33 (drop 33 bytes) = drop 33 bytes" using b(3) by simp
  show ?thesis
    unfolding wally_scriptpubkey_csv_2of2_then_1_from_bytes_opt_def Let_def
      csv_script_length(2) [OF b(3)]
    using b
    by (simp add: len_defs csv_opt_script_def csv_2of2_then_1_opt_script_def byte_and_ff t
        csv_delay_length)
qed

lemma p2tr_build:
  assumes "p2tr_args_ok c build_elements bytes flags"
  shows "wally_scriptpubkey_p2tr_from_bytes c build_elements bytes flags buf =
           (if length buf < 34 then (WALLY_OK, 34, buf)
            else (WALLY_OK, 34, store buf 0 (p2tr_script c bytes flags)))"
    "length (p2tr_script c bytes flags) = 34"
proof -
  have f: "\<not> (if build_elements then flags AND NOT EC_FLAG_ELEMENTS \<noteq> 0 else flags \<noteq> 0)"
    using assms by (auto simp add: p2tr_args_ok_def)
  consider (x) "length bytes = 32"
    | (k) "length bytes = 33" "fst (wally_ec_public_key_bip341_tweak c bytes flags) = WALLY_OK"
        "length (snd (wally_ec_public_key_bip341_tweak c bytes flags)) = 33"
    using assms by (auto simp add: p2tr_args_ok_def)
  then show "wally_scriptpubkey_p2tr_from_bytes c build_elements bytes flags buf =
           (if length buf < 34 then (WALLY_OK, 34, buf)
            else (WALLY_OK, 34, store buf 0 (p2tr_script c bytes flags)))"
  proof cases
    case x
    then show ?thesis
      unfolding wally_scriptpubkey_p2tr_from_bytes_def Let_def using f
      by (simp add: len_defs p2tr_script_def p2tr_template_def)
  next
    case k
    obtain t where t: "wally_ec_public_key_bip341_tweak c bytes flags = (WALLY_OK, t)"
      "length t = 33"
      using k(2,3) by (cases "wally_ec_public_key_bip341_tweak c bytes flags") auto
    show ?thesis
      unfolding wally_scriptpubkey_p2tr_from_bytes_def Let_def using f k(1) t
      by (simp add: len_defs p2tr_script_def p2tr_template_def)
  qed
  show "length (p2tr_script c bytes flags) = 34"
    using assms by (auto simp add: p2tr_args_ok_def p2tr_script_def p2tr_template_def)
qed

lemma elements_props:
  assumes "length bytes = n * sz"
  shows "concat (elements bytes n sz) = bytes" "length (elements bytes n sz) = n"
    "\<forall>k \<in> set (elements bytes n sz). length k = sz"
  using assms
proof (induction n arbitrary: bytes)
  case 0
  { case 1 then show ?case by simp }
  { case 2 then show ?case by simp }
  { case 3 then show ?case by simp }
next
  case (Suc n)
  { case 1
    have "length (drop sz bytes) = n * sz" using 1 by simp
    from Suc.IH(1) [OF this] show ?case by simp }
  { case 2
    have "length (drop sz bytes) = n * sz" using 2 by simp
    from Suc.IH(2) [OF this] show ?case by simp }
  { case 3
    have "length (drop sz bytes) = n * sz" using 3 by simp
    from Suc.IH(3) [OF this] show ?case using 3 by simp }
qed

lemma key_at:
  assumes "\<forall>k \<in> set ks. length k = n" "i < length ks"
  shows "take n (drop (i * n) (concat ks)) = ks ! i"
  using assms
proof (induction ks arbitrary: i)
  case Nil
  then show ?case by simp
next
  case (Cons k ks)
  show ?case
  proof (cases i)
    case 0
    then show ?thesis using Cons.prems by simp
  next
    case (Suc j)
    have "take n (drop (j * n) (concat ks)) = ks ! j"
      using Cons.prems Suc by (intro Cons.IH) simp_all
    thus ?thesis using Cons.prems Suc by simp
  qed
qed

lemma key_pushes:
  assumes "\<forall>k \<in> set ks. length k = 33"
  shows "map (\<lambda>i. 33 # take 33 (drop (i * 33) (concat ks))) [0 ..< length ks] = map key_push ks"
proof (rule nth_equalityI)
  show "length (map (\<lambda>i. 33 # take 33 (drop (i * 33) (concat ks))) [0 ..< length ks]) =
        length (map key_push ks)" by simp
next
  fix i assume "i < length (map (\<lambda>i. 33 # take 33 (drop (i * 33) (concat ks))) [0 ..< length ks])"
  hence i: "i < length ks" by simp
  hence "length (ks ! i) = 33" using assms by simp
  thus "map (\<lambda>i. 33 # take 33 (drop (i * 33) (concat ks))) [0 ..< length ks] ! i =
        map key_push ks ! i"
    using i key_at [OF assms i] by (simp add: key_push_def)
qed

lemma multisig_template_length:
  assumes "\<forall>k \<in> set ks. length k = 33"
  shows "length (multisig_template m ks) = 3 + length ks * 34"
proof -
  have "length (concat (map key_push ks)) = length ks * 34"
    using assms by (induction ks) (simp_all add: key_push_def)
  thus ?thesis by (simp add: multisig_template_def)
qed

lemma multisig_build:
  assumes "multisig_args_ok bytes threshold flags"
  shows "wally_scriptpubkey_multisig_from_bytes bytes threshold flags buf =
           (if buf = [] then (WALLY_EINVAL, 0, buf)
            else if length buf < length (multisig_script bytes threshold flags)
              then (WALLY_OK, length (multisig_script bytes threshold flags), buf)
            else (WALLY_OK, length (multisig_script bytes threshold flags),
                  store buf 0 (multisig_script bytes threshold flags)))"
    "length (multisig_script bytes threshold flags) = 3 + (length bytes div 33) * 34"
proof -
  define n where "n = length bytes div 33"
  define ks where "ks = elements bytes n 33"
  define ks' where "ks' = (if flags = WALLY_SCRIPT_MULTISIG_SORTED then sort ks else ks)"
  have lb: "length bytes = n * 33" using assms by (auto simp add: multisig_args_ok_def n_def)
  note el = elements_props [OF lb, folded ks_def]
  have t: "\<not> threshold < 1" "\<not> threshold > 15"
    using assms by (auto simp add: multisig_args_ok_def word_le_nat_alt word_less_nat_alt n_def)
  have ut: "1 \<le> unat threshold" "unat threshold \<le> n" "n \<le> 15"
    using assms by (simp_all add: multisig_args_ok_def word_le_nat_alt n_def)
  have f: "flags AND NOT WALLY_SCRIPT_MULTISIG_SORTED = 0"
    using assms by (auto simp add: multisig_args_ok_def)
  have ne: "bytes \<noteq> []" using assms by (simp add: multisig_args_ok_def)
  have ks': "length ks' = n" "\<forall>k \<in> set ks'. length k = 33"
    using el by (simp_all add: ks'_def)
  have pk: "(if flags AND WALLY_SCRIPT_MULTISIG_SORTED \<noteq> 0
             then qsort bytes n 33 pubkey_compare else bytes) = concat ks'"
  proof (cases "flags = WALLY_SCRIPT_MULTISIG_SORTED")
    case True
    have "qsort (concat ks) (length ks) 33 pubkey_compare = concat (sort ks)"
      using el(3) by (rule qsort_keys)
    thus ?thesis using True el by (simp add: ks'_def flag_defs)
  next
    case False
    hence "flags = 0" using assms by (simp add: multisig_args_ok_def)
    thus ?thesis using False el by (simp add: ks'_def)
  qed
  have sc: "multisig_script bytes threshold flags = multisig_template (unat threshold) ks'"
    by (simp add: multisig_script_def Let_def ks'_def ks_def n_def)
  have o1: "(ucast (value_to_op_n (ucast threshold)) :: byte) = op_n (unat threshold)"
    using ut by (intro value_to_op_n_word) simp_all
  have o2: "(ucast (value_to_op_n (of_nat n)) :: byte) = op_n n"
    using ut by (intro value_to_op_n_nat) simp_all
  have out: "[ucast (value_to_op_n (ucast threshold))] @
             concat (map (\<lambda>i. of_nat 33 # take 33 (drop (i * 33) (concat ks'))) [0 ..< n]) @
             [ucast (value_to_op_n (of_nat n)), OP_CHECKMULTISIG] =
             multisig_template (unat threshold) ks'"
    using key_pushes [OF ks'(2)] ks'(1) by (simp add: o1 o2 multisig_template_def)
  show l: "length (multisig_script bytes threshold flags) = 3 + (length bytes div 33) * 34"
    unfolding sc using multisig_template_length [OF ks'(2)] ks'(1) by (simp add: n_def)
  have nn: "\<not> n < 1" "\<not> n > 15" "\<not> unat threshold > n" "length bytes mod 33 = 0"
    using ut lb by simp_all
  show "wally_scriptpubkey_multisig_from_bytes bytes threshold flags buf =
           (if buf = [] then (WALLY_EINVAL, 0, buf)
            else if length buf < length (multisig_script bytes threshold flags)
              then (WALLY_OK, length (multisig_script bytes threshold flags), buf)
            else (WALLY_OK, length (multisig_script bytes threshold flags),
                  store buf 0 (multisig_script bytes threshold flags)))"
    unfolding l wally_scriptpubkey_multisig_from_bytes_def Let_def EC_PUBLIC_KEY_LEN_def
      n_def [symmetric] pk
    using t nn f ne out by (simp add: sc)
qed

lemma payload_plain: "payload c data 0 = data"
  by (simp add: payload_def)

lemma push_at_plain:
  assumes "length (data_push data) \<le> n" "off + n \<le> length buf"
  shows "\<exists>sub.
           (\<forall>b i m. b = buf \<longrightarrow> i = off \<longrightarrow> m = n \<longrightarrow>
              wally_script_push_from_bytes c data 0 (window b i m) =
                (WALLY_OK, length (data_push data), sub)) \<and>
           store buf off sub = store buf off (data_push data)"
  using push_at [of 0 c data n off buf] assms by (simp add: payload_plain)

lemma scriptsig_p2pkh_der_build:
  assumes "scriptsig_p2pkh_der_args_ok pub_key sig"
  shows "wally_scriptsig_p2pkh_from_der c pub_key sig buf =
           (if length buf < length (scriptsig_p2pkh_template sig pub_key)
            then (WALLY_EINVAL, 0, buf)
            else (WALLY_OK, length (scriptsig_p2pkh_template sig pub_key),
                  store buf 0 (scriptsig_p2pkh_template sig pub_key)))"
proof -
  define ps where "ps = data_push sig"
  define pk where "pk = data_push pub_key"
  have a: "is_pk_len (length pub_key)" "sig \<noteq> []" "\<not> length sig > EC_SIGNATURE_DER_MAX_LEN + 1"
    using assms
    by (auto simp add: scriptsig_p2pkh_der_args_ok_def is_pk_len_def len_defs
        EC_SIGNATURE_DER_MAX_LEN_def)
  have lt: "length (scriptsig_p2pkh_template sig pub_key) = length ps + length pk"
    by (simp add: scriptsig_p2pkh_template_def ps_def pk_def)
  have sz: "script_get_push_size (length pub_key) + script_get_push_size (length sig) =
            length ps + length pk"
    by (simp add: ps_def pk_def data_push_length)
  show ?thesis
  proof (cases "length buf < length ps + length pk")
    case True
    then show ?thesis
      unfolding wally_scriptsig_p2pkh_from_der_def Let_def sz lt using a by simp
  next
    case False
    hence fit: "length ps \<le> length buf" by simp
    have p1: "wally_script_push_from_bytes c sig 0 buf = (WALLY_OK, length ps, store buf 0 ps)"
      using push_plain_fits [of sig buf c] fit by (simp add: ps_def store_0_eq)
    let ?out1 = "store buf 0 ps"
    have l1: "length ?out1 = length buf" using fit by (simp add: store_length)
    have "length (data_push pub_key) \<le> length buf - length ps"
      "length ps + (length buf - length ps) \<le> length ?out1"
      using False l1 by (simp_all add: pk_def)
    from push_at_plain [OF this] obtain sub where
      push: "\<forall>b i m. b = ?out1 \<longrightarrow> i = length ps \<longrightarrow> m = length buf - length ps \<longrightarrow>
               wally_script_push_from_bytes c pub_key 0 (window b i m) =
                 (WALLY_OK, length pk, sub)"
      and s2: "store ?out1 (length ps) sub = store ?out1 (length ps) pk"
      by (auto simp add: pk_def)
    have s3: "store ?out1 (length ps) pk = store buf 0 (ps @ pk)"
      using False by (intro store_store) simp_all
    have "wally_scriptsig_p2pkh_from_der c pub_key sig buf =
            (WALLY_OK, length pk + length ps, store ?out1 (length ps) sub)"
      unfolding wally_scriptsig_p2pkh_from_der_def Let_def sz using a False
      by (simp add: p1 push)
    also have "store ?out1 (length ps) sub = store buf 0 (scriptsig_p2pkh_template sig pub_key)"
      by (simp only: s2 s3) (simp add: scriptsig_p2pkh_template_def ps_def pk_def)
    finally show ?thesis using False lt by simp
  qed
qed

lemma sighash_hi:
  assumes "(sighash :: 32 word) \<le> 0xff" "8 \<le> n"
  shows "\<not> bit sighash n"
proof -
  have u: "unat sighash < 2 ^ 8" using assms(1) by (simp add: word_le_nat_alt)
  have "unat (drop_bit 8 sighash) = drop_bit 8 (unat sighash)" by (rule unat_drop_bit_eq)
  also have "\<dots> = 0" using u by (simp add: drop_bit_eq_div)
  finally have z: "drop_bit 8 sighash = 0" by (simp add: unat_eq_zero)
  have "bit (drop_bit 8 sighash) (n - 8) = bit sighash n"
    using assms(2) by (simp add: bit_drop_bit_eq)
  thus ?thesis using z by simp
qed

lemma sighash_byte:
  assumes "(sighash :: 32 word) \<le> 0xff"
  shows "sighash AND 0xffffff00 = 0" "sighash AND NOT 0xff = 0"
    "(ucast (sighash AND 0xff) :: byte) = ucast sighash"
proof -
  have m: "(0xff :: 32 word) = mask 8" by (simp add: mask_eq_exp_minus_1)
  have n: "sighash AND NOT (mask 8) = 0"
  proof (rule bit_eqI)
    fix n
    show "bit (sighash AND NOT (mask 8)) n = bit (0 :: 32 word) n"
      using sighash_hi [OF assms, of n] by (cases "n < 8") (simp_all add: bit_simps)
  qed
  thus "sighash AND NOT 0xff = 0" by (simp only: m)
  have "(0xffffff00 :: 32 word) = NOT (mask 8)" by (simp add: mask_eq_exp_minus_1)
  thus "sighash AND 0xffffff00 = 0" using n by (simp only:)
  have "sighash AND mask 8 = sighash"
  proof (rule bit_eqI)
    fix n
    show "bit (sighash AND mask 8) n = bit sighash n"
      using sighash_hi [OF assms, of n] by (cases "n < 8") (simp_all add: bit_simps)
  qed
  thus "(ucast (sighash AND 0xff) :: byte) = ucast sighash" by (simp only: m)
qed

lemma scriptsig_p2pkh_sig_build:
  assumes "scriptsig_p2pkh_sig_args_ok c pub_key sig sighash"
  shows "wally_scriptsig_p2pkh_from_sig c pub_key sig sighash buf =
           (if length buf < length (scriptsig_p2pkh_sig_script c pub_key sig sighash)
            then (WALLY_EINVAL, 0, buf)
            else (WALLY_OK, length (scriptsig_p2pkh_sig_script c pub_key sig sighash),
                  store buf 0 (scriptsig_p2pkh_sig_script c pub_key sig sighash)))"
proof -
  have s: "sighash \<le> 0xff" "length pub_key = 33 \<or> length pub_key = 65"
    using assms by (simp_all add: scriptsig_p2pkh_sig_args_ok_def sig_to_der_ok_def)
  obtain der where der: "wally_ec_sig_to_der c sig 73 = (WALLY_OK, der)" "length der \<le> 72"
    using assms
    by (cases "wally_ec_sig_to_der c sig 73")
      (auto simp add: scriptsig_p2pkh_sig_args_ok_def sig_to_der_ok_def)
  have ok: "scriptsig_p2pkh_der_args_ok pub_key (der @ [ucast sighash])"
    using s(2) der(2) by (simp add: scriptsig_p2pkh_der_args_ok_def)
  have sc: "scriptsig_p2pkh_sig_script c pub_key sig sighash =
            scriptsig_p2pkh_template (der @ [ucast sighash]) pub_key"
    using der by (simp add: scriptsig_p2pkh_sig_script_def der_and_hash_def)
  show ?thesis
    unfolding wally_scriptsig_p2pkh_from_sig_def sc
    using der(1) sighash_byte [OF s(1)]
    by (simp add: EC_SIGNATURE_DER_MAX_LEN_def scriptsig_p2pkh_der_build [OF ok])
qed

lemma sigs_to_der_all:
  assumes "list_all (sig_to_der_ok c) pairs"
  shows "sigs_to_der c pairs = Inr (map (der_and_hash c) pairs)"
  using assms
proof (induction pairs)
  case Nil
  then show ?case by simp
next
  case (Cons a pairs)
  obtain sig sighash where a: "a = (sig, sighash)" by (cases a)
  have ok: "sighash \<le> 0xff" "fst (wally_ec_sig_to_der c sig 73) = WALLY_OK"
    using Cons.prems by (simp_all add: a sig_to_der_ok_def)
  obtain der where der: "wally_ec_sig_to_der c sig 73 = (WALLY_OK, der)"
    using ok(2) by (cases "wally_ec_sig_to_der c sig 73") auto
  have "sigs_to_der c pairs = Inr (map (der_and_hash c) pairs)"
    using Cons by simp
  thus ?case
    using der sighash_byte [OF ok(1)]
    by (simp add: a DER_AND_HASH_MAX_LEN_def EC_SIGNATURE_DER_MAX_LEN_def der_and_hash_def)
qed

lemma pushes_length:
  "length (concat (map data_push ders)) =
   sum_list (map (\<lambda>der. script_get_push_size (length der)) ders)"
  by (induction ders) (simp_all add: data_push_length)

lemma push_sigs_ok:
  assumes "p + length (concat (map data_push ders)) \<le> length buf"
  shows "push_sigs c ders buf p =
           (WALLY_OK, p + length (concat (map data_push ders)),
            store buf p (concat (map data_push ders)))"
  using assms
proof (induction ders arbitrary: buf p)
  case Nil
  then show ?case by (simp add: store_def)
next
  case (Cons der ders)
  define d where "d = data_push der"
  define rest where "rest = concat (map data_push ders)"
  have len: "p + (length d + length rest) \<le> length buf"
    using Cons.prems by (simp add: d_def rest_def)
  have "length (data_push der) \<le> length buf - p" "p + (length buf - p) \<le> length buf"
    using len by (simp_all add: d_def)
  from push_at_plain [OF this] obtain sub where
    push: "\<forall>b i m. b = buf \<longrightarrow> i = p \<longrightarrow> m = length buf - p \<longrightarrow>
             wally_script_push_from_bytes c der 0 (window b i m) = (WALLY_OK, length d, sub)"
    and s2: "store buf p sub = store buf p d"
    by (auto simp add: d_def)
  have l1: "length (store buf p d) = length buf" using len by (simp add: store_length)
  have "p + length d + length (concat (map data_push ders)) \<le> length (store buf p d)"
    using len l1 by (simp add: rest_def)
  from Cons.IH [OF this]
  have ih: "push_sigs c ders (store buf p d) (p + length d) =
              (WALLY_OK, p + length d + length rest, store (store buf p d) (p + length d) rest)"
    by (simp add: rest_def)
  have s3: "store (store buf p d) (p + length d) rest = store buf p (d @ rest)"
    using len by (intro store_store) simp_all
  have "push_sigs c (der # ders) buf p = push_sigs c ders (store buf p sub) (p + length d)"
    by (simp add: push)
  also have "\<dots> = (WALLY_OK, p + length d + length rest, store buf p (d @ rest))"
    by (simp only: s2 ih s3)
  finally show ?case by (simp add: d_def rest_def add.assoc)
qed

lemma scriptsig_multisig_build:
  assumes "scriptsig_multisig_args_ok c script bytes sighash flags"
  shows "wally_scriptsig_multisig_from_bytes c script bytes sighash flags buf =
           (if length buf < length (scriptsig_multisig_script c script bytes sighash)
            then (WALLY_OK, length (scriptsig_multisig_script c script bytes sighash), buf)
            else (WALLY_OK, length (scriptsig_multisig_script c script bytes sighash),
                  store buf 0 (scriptsig_multisig_script c script bytes sighash)))"
proof -
  define pairs where "pairs = zip (elements bytes (length bytes div 64) 64) sighash"
  define ders where "ders = map (der_and_hash c) pairs"
  define ps where "ps = concat (map data_push ders)"
  define pscript where "pscript = data_push script"
  have a: "script \<noteq> []" "bytes \<noteq> []" "length bytes mod 64 = 0"
    "\<not> length bytes div 64 > 15" "length sighash = length bytes div 64" "flags = 0"
    using assms by (auto simp add: scriptsig_multisig_args_ok_def)
  have n1: "\<not> length bytes div 64 < 1"
  proof -
    have "length bytes = 64 * (length bytes div 64)" using a(3) by auto
    thus ?thesis using a(2) by (cases "length bytes div 64") auto
  qed
  have sd: "sigs_to_der c pairs = Inr ders"
    unfolding ders_def using assms
    by (intro sigs_to_der_all) (simp add: scriptsig_multisig_args_ok_def pairs_def)
  have sc: "scriptsig_multisig_script c script bytes sighash = [OP_0] @ ps @ pscript"
    by (simp add: scriptsig_multisig_script_def scriptsig_multisig_template_def ps_def
        ders_def pairs_def pscript_def)
  have lt: "length (scriptsig_multisig_script c script bytes sighash) =
            1 + length ps + length pscript"
    unfolding sc by simp
  have req: "sum_list (map (\<lambda>der. script_get_push_size (length der)) ders) +
             (1 + script_get_push_size (length script)) = 1 + length ps + length pscript"
    by (simp add: ps_def pscript_def pushes_length data_push_length)
  show ?thesis
  proof (cases "length buf < 1 + length ps + length pscript")
    case True
    then show ?thesis
      unfolding wally_scriptsig_multisig_from_bytes_def Let_def EC_SIGNATURE_LEN_def
        pairs_def [symmetric] sd lt
      using a n1 req by simp
  next
    case False
    let ?out0 = "store buf 0 [OP_0]"
    have l0: "length ?out0 = length buf" using False by (simp add: store_length)
    have "1 + length (concat (map data_push ders)) \<le> length ?out0"
      using False l0 by (simp add: ps_def)
    from push_sigs_ok [OF this]
    have sigs: "push_sigs c ders ?out0 1 = (WALLY_OK, 1 + length ps, store ?out0 1 ps)"
      by (simp add: ps_def)
    have s1: "store ?out0 1 ps = store buf 0 ([OP_0] @ ps)"
      using False by (intro store_store) simp_all
    let ?out1 = "store buf 0 ([OP_0] @ ps)"
    have l1: "length ?out1 = length buf" using False by (simp add: store_length)
    have "length (data_push script) \<le> length buf - (1 + length ps)"
      "(1 + length ps) + (length buf - (1 + length ps)) \<le> length ?out1"
      using False l1 by (simp_all add: pscript_def)
    from push_at_plain [OF this] obtain sub where
      push: "\<forall>b i m. b = ?out1 \<longrightarrow> i = 1 + length ps \<longrightarrow> m = length buf - (1 + length ps) \<longrightarrow>
               wally_script_push_from_bytes c script 0 (window b i m) =
                 (WALLY_OK, length pscript, sub)"
      and s2: "store ?out1 (1 + length ps) sub = store ?out1 (1 + length ps) pscript"
      by (auto simp add: pscript_def)
    have s3: "store ?out1 (1 + length ps) pscript = store buf 0 (([OP_0] @ ps) @ pscript)"
      using False by (intro store_store) simp_all
    have "wally_scriptsig_multisig_from_bytes c script bytes sighash flags buf =
            (WALLY_OK, 1 + length ps + length pscript, store ?out1 (1 + length ps) sub)"
      unfolding wally_scriptsig_multisig_from_bytes_def Let_def EC_SIGNATURE_LEN_def
        pairs_def [symmetric] sd
      using a n1 False req sigs s1 by (simp add: push)
    also have "store ?out1 (1 + length ps) sub =
               store buf 0 (scriptsig_multisig_script c script bytes sighash)"
      by (simp only: s2 s3 sc append_assoc)
    finally show ?thesis using False lt by simp
  qed
qed

lemma produces_store:
  assumes "build big = (WALLY_OK, length script, store big 0 script)" "length script \<le> length big"
  shows "produces build big script"
  using assms by (simp add: produces_def store_0_eq)

lemma p2pkh_short:
  assumes "p2pkh_args_ok c bytes flags" "small \<noteq> []" "length small < 25"
  shows "reports (wally_scriptpubkey_p2pkh_from_bytes c bytes flags) small 25"
proof -
  have f: "script_flags_ok flags 0" "flags AND WALLY_SCRIPT_SHA256 = 0" "bytes \<noteq> []"
    using assms(1) by (auto simp add: p2pkh_args_ok_def script_flags_ok_def flag_defs)
  show ?thesis
    using f assms(2,3)
    by (simp add: reports_def wally_scriptpubkey_p2pkh_from_bytes_def Let_def len_defs)
qed

lemma p2sh_short:
  assumes "p2sh_args_ok c bytes flags" "small \<noteq> []" "length small < 23"
  shows "reports (wally_scriptpubkey_p2sh_from_bytes c bytes flags) small 23"
proof -
  have f: "flags AND NOT WALLY_SCRIPT_HASH160 = 0" "bytes \<noteq> []"
    "\<not> (\<not> (flags AND WALLY_SCRIPT_HASH160 \<noteq> 0) \<and> length bytes \<noteq> HASH160_LEN)"
    using assms(1) by (auto simp add: p2sh_args_ok_def flag_defs len_defs)
  show ?thesis
    using f assms(2,3)
    by (simp add: reports_def wally_scriptpubkey_p2sh_from_bytes_def Let_def
        WALLY_SCRIPTPUBKEY_P2SH_LEN_def)
qed

lemma script_lengths:
  "p2pkh_args_ok c b1 f1 \<Longrightarrow> length (p2pkh_script c b1 f1) = 25"
  "p2sh_args_ok c b2 f2 \<Longrightarrow> length (p2sh_script c b2 f2) = 23"
  by (auto simp add: p2pkh_args_ok_def p2sh_args_ok_def p2pkh_script_def p2sh_script_def
      p2pkh_template_def p2sh_template_def payload_def hash160_ok_def flag_defs)

lemma rejects_empty:
  "rejects (wally_scriptpubkey_p2pkh_from_bytes c b1 f1) []"
  "rejects (wally_scriptpubkey_p2sh_from_bytes c b2 f2) []"
  "rejects (wally_scriptpubkey_op_return_from_bytes c b3 f3) []"
  "rejects (wally_scriptpubkey_multisig_from_bytes b4 t4 f4) []"
  "rejects (wally_witness_program_from_bytes_and_version c b5 v5 f5) []"
  "rejects (wally_witness_program_from_bytes c b5 f5) []"
  "rejects (wally_scriptsig_p2pkh_from_der c k8 s8) []"
  by (simp_all add: rejects_def Let_def wally_scriptpubkey_p2pkh_from_bytes_def
      wally_scriptpubkey_p2sh_from_bytes_def wally_scriptpubkey_op_return_from_bytes_def
      wally_scriptpubkey_multisig_from_bytes_def wally_witness_program_from_bytes_and_version_def
      wally_witness_program_from_bytes_def wally_scriptsig_p2pkh_from_der_def
      script_get_push_size_def calc_push_opcode_size_def)

text \<open>
  C1 (amended). The builders are the scriptPubkey builders (P2PKH, P2SH, \<open>OP_RETURN\<close>,
  multisig, the two CSV-recovery templates, taproot), the two witness-program builders
  and the scriptSig builders (P2PKH from a DER signature and from a compact signature,
  multisig). Their non-buffer arguments are valid and the external collaborators they
  call succeed.

  \<^item> The CSV-recovery builders, the taproot builder and the multisig scriptSig builder
    honour the probe: called with a zero-length output buffer, or with any buffer
    shorter than the script, they succeed, write nothing and report the length of the
    script.
  \<^item> The P2PKH, P2SH, \<open>OP_RETURN\<close> and multisig scriptPubkey builders, the
    witness-program builders and the P2PKH scriptSig builders reject a zero-length
    output buffer: they return \<open>WALLY_EINVAL\<close>, write nothing and report 0. All of
    them but the P2PKH scriptSig builder from a compact signature do so for any
    arguments.
  \<^item> Called with a non-empty buffer shorter than the script, the P2PKH, P2SH and
    multisig scriptPubkey builders succeed, write nothing and report the length of the
    script; the P2PKH scriptSig builders return \<open>WALLY_EINVAL\<close>, write nothing and
    report 0.
  \<^item> Every builder, called with a buffer of at least the length of the script,
    succeeds, reports the length of the script and stores the script at the start of
    the buffer, leaving the bytes beyond it as they were.
\<close>

theorem builders_sizing_probe:
  "(csv_args_ok b6 n6 f6 \<longrightarrow>
      reports (wally_scriptpubkey_csv_2of2_then_1_from_bytes b6 n6 f6) []
        (length (csv_script b6 n6)) \<and>
      reports (wally_scriptpubkey_csv_2of2_then_1_from_bytes_opt b6 n6 f6) []
        (length (csv_opt_script b6 n6)) \<and>
      (length small < length (csv_script b6 n6) \<longrightarrow>
         reports (wally_scriptpubkey_csv_2of2_then_1_from_bytes b6 n6 f6) small
           (length (csv_script b6 n6))) \<and>
      (length small < length (csv_opt_script b6 n6) \<longrightarrow>
         reports (wally_scriptpubkey_csv_2of2_then_1_from_bytes_opt b6 n6 f6) small
           (length (csv_opt_script b6 n6))) \<and>
      (length (csv_script b6 n6) \<le> length big \<longrightarrow>
         produces (wally_scriptpubkey_csv_2of2_then_1_from_bytes b6 n6 f6) big
           (csv_script b6 n6)) \<and>
      (length (csv_opt_script b6 n6) \<le> length big \<longrightarrow>
         produces (wally_scriptpubkey_csv_2of2_then_1_from_bytes_opt b6 n6 f6) big
           (csv_opt_script b6 n6))) \<and>
   (p2tr_args_ok c be b7 f7 \<longrightarrow>
      reports (wally_scriptpubkey_p2tr_from_bytes c be b7 f7) [] (length (p2tr_script c b7 f7)) \<and>
      (length small < length (p2tr_script c b7 f7) \<longrightarrow>
         reports (wally_scriptpubkey_p2tr_from_bytes c be b7 f7) small
           (length (p2tr_script c b7 f7))) \<and>
      (length (p2tr_script c b7 f7) \<le> length big \<longrightarrow>
         produces (wally_scriptpubkey_p2tr_from_bytes c be b7 f7) big (p2tr_script c b7 f7))) \<and>
   (scriptsig_multisig_args_ok c r10 b10 h10 f10 \<longrightarrow>
      reports (wally_scriptsig_multisig_from_bytes c r10 b10 h10 f10) []
        (length (scriptsig_multisig_script c r10 b10 h10)) \<and>
      (length small < length (scriptsig_multisig_script c r10 b10 h10) \<longrightarrow>
         reports (wally_scriptsig_multisig_from_bytes c r10 b10 h10 f10) small
           (length (scriptsig_multisig_script c r10 b10 h10))) \<and>
      (length (scriptsig_multisig_script c r10 b10 h10) \<le> length big \<longrightarrow>
         produces (wally_scriptsig_multisig_from_bytes c r10 b10 h10 f10) big
           (scriptsig_multisig_script c r10 b10 h10))) \<and>
   rejects (wally_scriptpubkey_p2pkh_from_bytes c b1 f1) [] \<and>
   (p2pkh_args_ok c b1 f1 \<longrightarrow>
      (small \<noteq> [] \<and> length small < length (p2pkh_script c b1 f1) \<longrightarrow>
         reports (wally_scriptpubkey_p2pkh_from_bytes c b1 f1) small
           (length (p2pkh_script c b1 f1))) \<and>
      (length (p2pkh_script c b1 f1) \<le> length big \<longrightarrow>
         produces (wally_scriptpubkey_p2pkh_from_bytes c b1 f1) big (p2pkh_script c b1 f1))) \<and>
   rejects (wally_scriptpubkey_p2sh_from_bytes c b2 f2) [] \<and>
   (p2sh_args_ok c b2 f2 \<longrightarrow>
      (small \<noteq> [] \<and> length small < length (p2sh_script c b2 f2) \<longrightarrow>
         reports (wally_scriptpubkey_p2sh_from_bytes c b2 f2) small
           (length (p2sh_script c b2 f2))) \<and>
      (length (p2sh_script c b2 f2) \<le> length big \<longrightarrow>
         produces (wally_scriptpubkey_p2sh_from_bytes c b2 f2) big (p2sh_script c b2 f2))) \<and>
   rejects (wally_scriptpubkey_multisig_from_bytes b4 t4 f4) [] \<and>
   (multisig_args_ok b4 t4 f4 \<longrightarrow>
      (small \<noteq> [] \<and> length small < length (multisig_script b4 t4 f4) \<longrightarrow>
         reports (wally_scriptpubkey_multisig_from_bytes b4 t4 f4) small
           (length (multisig_script b4 t4 f4))) \<and>
      (length (multisig_script b4 t4 f4) \<le> length big \<longrightarrow>
         produces (wally_scriptpubkey_multisig_from_bytes b4 t4 f4) big
           (multisig_script b4 t4 f4))) \<and>
   rejects (wally_scriptpubkey_op_return_from_bytes c b3 f3) [] \<and>
   (op_return_args_ok b3 f3 \<and> length (op_return_template b3) \<le> length big \<longrightarrow>
      produces (wally_scriptpubkey_op_return_from_bytes c b3 f3) big (op_return_template b3)) \<and>
   rejects (wally_witness_program_from_bytes_and_version c b5 v5 f5) [] \<and>
   rejects (wally_witness_program_from_bytes c b5 f5) [] \<and>
   (witness_program_args_ok c b5 v5 f5 \<and>
    length (witness_program_script c b5 v5 f5) \<le> length big \<longrightarrow>
      produces (wally_witness_program_from_bytes_and_version c b5 v5 f5) big
        (witness_program_script c b5 v5 f5)) \<and>
   (witness_program_args_ok c b5 0 f5 \<and>
    length (witness_program_script c b5 0 f5) \<le> length big \<longrightarrow>
      produces (wally_witness_program_from_bytes c b5 f5) big
        (witness_program_script c b5 0 f5)) \<and>
   rejects (wally_scriptsig_p2pkh_from_der c k8 s8) [] \<and>
   (scriptsig_p2pkh_der_args_ok k8 s8 \<longrightarrow>
      (length small < length (scriptsig_p2pkh_template s8 k8) \<longrightarrow>
         rejects (wally_scriptsig_p2pkh_from_der c k8 s8) small) \<and>
      (length (scriptsig_p2pkh_template s8 k8) \<le> length big \<longrightarrow>
         produces (wally_scriptsig_p2pkh_from_der c k8 s8) big
           (scriptsig_p2pkh_template s8 k8))) \<and>
   (scriptsig_p2pkh_sig_args_ok c k9 s9 h9 \<longrightarrow>
      rejects (wally_scriptsig_p2pkh_from_sig c k9 s9 h9) [] \<and>
      (length small < length (scriptsig_p2pkh_sig_script c k9 s9 h9) \<longrightarrow>
         rejects (wally_scriptsig_p2pkh_from_sig c k9 s9 h9) small) \<and>
      (length (scriptsig_p2pkh_sig_script c k9 s9 h9) \<le> length big \<longrightarrow>
         produces (wally_scriptsig_p2pkh_from_sig c k9 s9 h9) big
           (scriptsig_p2pkh_sig_script c k9 s9 h9)))"
proof -
  have csv: "reports (wally_scriptpubkey_csv_2of2_then_1_from_bytes b6 n6 f6) buf
               (length (csv_script b6 n6))"
    if "csv_args_ok b6 n6 f6" "length buf < length (csv_script b6 n6)" for buf
    using that by (simp add: reports_def csv_build)
  have csv_big: "produces (wally_scriptpubkey_csv_2of2_then_1_from_bytes b6 n6 f6) big
                   (csv_script b6 n6)"
    if "csv_args_ok b6 n6 f6" "length (csv_script b6 n6) \<le> length big"
    using that by (intro produces_store) (simp_all add: csv_build)
  have csv_ne: "0 < length (csv_script b6 n6)" "0 < length (csv_opt_script b6 n6)"
    by (simp_all add: csv_script_def csv_opt_script_def csv_2of2_then_1_script_def
        csv_2of2_then_1_opt_script_def)
  have opt: "reports (wally_scriptpubkey_csv_2of2_then_1_from_bytes_opt b6 n6 f6) buf
               (length (csv_opt_script b6 n6))"
    if "csv_args_ok b6 n6 f6" "length buf < length (csv_opt_script b6 n6)" for buf
    using that by (simp add: reports_def csv_opt_build)
  have opt_big: "produces (wally_scriptpubkey_csv_2of2_then_1_from_bytes_opt b6 n6 f6) big
                   (csv_opt_script b6 n6)"
    if "csv_args_ok b6 n6 f6" "length (csv_opt_script b6 n6) \<le> length big"
    using that by (intro produces_store) (simp_all add: csv_opt_build)
  have c_csv: "csv_args_ok b6 n6 f6 \<longrightarrow>
      reports (wally_scriptpubkey_csv_2of2_then_1_from_bytes b6 n6 f6) []
        (length (csv_script b6 n6)) \<and>
      reports (wally_scriptpubkey_csv_2of2_then_1_from_bytes_opt b6 n6 f6) []
        (length (csv_opt_script b6 n6)) \<and>
      (length small < length (csv_script b6 n6) \<longrightarrow>
         reports (wally_scriptpubkey_csv_2of2_then_1_from_bytes b6 n6 f6) small
           (length (csv_script b6 n6))) \<and>
      (length small < length (csv_opt_script b6 n6) \<longrightarrow>
         reports (wally_scriptpubkey_csv_2of2_then_1_from_bytes_opt b6 n6 f6) small
           (length (csv_opt_script b6 n6))) \<and>
      (length (csv_script b6 n6) \<le> length big \<longrightarrow>
         produces (wally_scriptpubkey_csv_2of2_then_1_from_bytes b6 n6 f6) big
           (csv_script b6 n6)) \<and>
      (length (csv_opt_script b6 n6) \<le> length big \<longrightarrow>
         produces (wally_scriptpubkey_csv_2of2_then_1_from_bytes_opt b6 n6 f6) big
           (csv_opt_script b6 n6))"
    using csv [of "[]"] csv [of small] opt [of "[]"] opt [of small] csv_big opt_big csv_ne
    by simp
  have tr: "reports (wally_scriptpubkey_p2tr_from_bytes c be b7 f7) buf
              (length (p2tr_script c b7 f7))"
    if "p2tr_args_ok c be b7 f7" "length buf < length (p2tr_script c b7 f7)" for buf
    using that p2tr_build [OF that(1)] by (simp add: reports_def)
  have tr_big: "produces (wally_scriptpubkey_p2tr_from_bytes c be b7 f7) big (p2tr_script c b7 f7)"
    if "p2tr_args_ok c be b7 f7" "length (p2tr_script c b7 f7) \<le> length big"
    using that p2tr_build [OF that(1)] by (intro produces_store) simp_all
  have c_tr: "p2tr_args_ok c be b7 f7 \<longrightarrow>
      reports (wally_scriptpubkey_p2tr_from_bytes c be b7 f7) [] (length (p2tr_script c b7 f7)) \<and>
      (length small < length (p2tr_script c b7 f7) \<longrightarrow>
         reports (wally_scriptpubkey_p2tr_from_bytes c be b7 f7) small
           (length (p2tr_script c b7 f7))) \<and>
      (length (p2tr_script c b7 f7) \<le> length big \<longrightarrow>
         produces (wally_scriptpubkey_p2tr_from_bytes c be b7 f7) big (p2tr_script c b7 f7))"
    using tr [of "[]"] tr [of small] tr_big p2tr_build(2) [of c be b7 f7] by simp
  have ms: "reports (wally_scriptsig_multisig_from_bytes c r10 b10 h10 f10) buf
              (length (scriptsig_multisig_script c r10 b10 h10))"
    if "scriptsig_multisig_args_ok c r10 b10 h10 f10"
       "length buf < length (scriptsig_multisig_script c r10 b10 h10)" for buf
    using that by (simp add: reports_def scriptsig_multisig_build)
  have ms_big: "produces (wally_scriptsig_multisig_from_bytes c r10 b10 h10 f10) big
                  (scriptsig_multisig_script c r10 b10 h10)"
    if "scriptsig_multisig_args_ok c r10 b10 h10 f10"
       "length (scriptsig_multisig_script c r10 b10 h10) \<le> length big"
    using that by (intro produces_store) (simp_all add: scriptsig_multisig_build)
  have ms_ne: "0 < length (scriptsig_multisig_script c r10 b10 h10)"
    by (simp add: scriptsig_multisig_script_def scriptsig_multisig_template_def)
  have c_ms: "scriptsig_multisig_args_ok c r10 b10 h10 f10 \<longrightarrow>
      reports (wally_scriptsig_multisig_from_bytes c r10 b10 h10 f10) []
        (length (scriptsig_multisig_script c r10 b10 h10)) \<and>
      (length small < length (scriptsig_multisig_script c r10 b10 h10) \<longrightarrow>
         reports (wally_scriptsig_multisig_from_bytes c r10 b10 h10 f10) small
           (length (scriptsig_multisig_script c r10 b10 h10))) \<and>
      (length (scriptsig_multisig_script c r10 b10 h10) \<le> length big \<longrightarrow>
         produces (wally_scriptsig_multisig_from_bytes c r10 b10 h10 f10) big
           (scriptsig_multisig_script c r10 b10 h10))"
    using ms [of "[]"] ms [of small] ms_big ms_ne by simp
  have c_p2pkh: "p2pkh_args_ok c b1 f1 \<longrightarrow>
      (small \<noteq> [] \<and> length small < length (p2pkh_script c b1 f1) \<longrightarrow>
         reports (wally_scriptpubkey_p2pkh_from_bytes c b1 f1) small
           (length (p2pkh_script c b1 f1))) \<and>
      (length (p2pkh_script c b1 f1) \<le> length big \<longrightarrow>
         produces (wally_scriptpubkey_p2pkh_from_bytes c b1 f1) big (p2pkh_script c b1 f1))"
    using p2pkh_short [of c b1 f1 small] p2pkh_produces [of c b1 f1 big]
      script_lengths(1) [of c b1 f1] by simp
  have c_p2sh: "p2sh_args_ok c b2 f2 \<longrightarrow>
      (small \<noteq> [] \<and> length small < length (p2sh_script c b2 f2) \<longrightarrow>
         reports (wally_scriptpubkey_p2sh_from_bytes c b2 f2) small
           (length (p2sh_script c b2 f2))) \<and>
      (length (p2sh_script c b2 f2) \<le> length big \<longrightarrow>
         produces (wally_scriptpubkey_p2sh_from_bytes c b2 f2) big (p2sh_script c b2 f2))"
    using p2sh_short [of c b2 f2 small] p2sh_produces [of c b2 f2 big]
      script_lengths(2) [of c b2 f2] by simp
  have mu: "reports (wally_scriptpubkey_multisig_from_bytes b4 t4 f4) small
              (length (multisig_script b4 t4 f4))"
    if "multisig_args_ok b4 t4 f4" "small \<noteq> []"
       "length small < length (multisig_script b4 t4 f4)"
    using that by (simp add: reports_def multisig_build(1))
  have mu_big: "produces (wally_scriptpubkey_multisig_from_bytes b4 t4 f4) big
                  (multisig_script b4 t4 f4)"
    if "multisig_args_ok b4 t4 f4" "length (multisig_script b4 t4 f4) \<le> length big"
  proof -
    have "big \<noteq> []" using that multisig_build(2) [OF that(1)] by auto
    thus ?thesis using that by (intro produces_store) (simp_all add: multisig_build(1))
  qed
  have c_mu: "multisig_args_ok b4 t4 f4 \<longrightarrow>
      (small \<noteq> [] \<and> length small < length (multisig_script b4 t4 f4) \<longrightarrow>
         reports (wally_scriptpubkey_multisig_from_bytes b4 t4 f4) small
           (length (multisig_script b4 t4 f4))) \<and>
      (length (multisig_script b4 t4 f4) \<le> length big \<longrightarrow>
         produces (wally_scriptpubkey_multisig_from_bytes b4 t4 f4) big
           (multisig_script b4 t4 f4))"
    using mu mu_big by simp
  have c_or: "op_return_args_ok b3 f3 \<and> length (op_return_template b3) \<le> length big \<longrightarrow>
      produces (wally_scriptpubkey_op_return_from_bytes c b3 f3) big (op_return_template b3)"
    using op_return_produces [of b3 f3 big c] by simp
  have c_wp: "witness_program_args_ok c b5 v5 f5 \<and>
    length (witness_program_script c b5 v5 f5) \<le> length big \<longrightarrow>
      produces (wally_witness_program_from_bytes_and_version c b5 v5 f5) big
        (witness_program_script c b5 v5 f5)"
    using witness_program_produces [of c b5 v5 f5 big] by simp
  have c_wp0: "witness_program_args_ok c b5 0 f5 \<and>
    length (witness_program_script c b5 0 f5) \<le> length big \<longrightarrow>
      produces (wally_witness_program_from_bytes c b5 f5) big
        (witness_program_script c b5 0 f5)"
    using witness_program_produces [of c b5 0 f5 big]
    by (simp add: produces_def wally_witness_program_from_bytes_def)
  have c_der: "scriptsig_p2pkh_der_args_ok k8 s8 \<longrightarrow>
      (length small < length (scriptsig_p2pkh_template s8 k8) \<longrightarrow>
         rejects (wally_scriptsig_p2pkh_from_der c k8 s8) small) \<and>
      (length (scriptsig_p2pkh_template s8 k8) \<le> length big \<longrightarrow>
         produces (wally_scriptsig_p2pkh_from_der c k8 s8) big
           (scriptsig_p2pkh_template s8 k8))"
    by (simp add: rejects_def produces_def scriptsig_p2pkh_der_build store_0_eq)
  have sg_ne: "0 < length (scriptsig_p2pkh_sig_script c k9 s9 h9)"
    by (simp add: scriptsig_p2pkh_sig_script_def scriptsig_p2pkh_template_def data_push_nonempty)
  have c_sig: "scriptsig_p2pkh_sig_args_ok c k9 s9 h9 \<longrightarrow>
      rejects (wally_scriptsig_p2pkh_from_sig c k9 s9 h9) [] \<and>
      (length small < length (scriptsig_p2pkh_sig_script c k9 s9 h9) \<longrightarrow>
         rejects (wally_scriptsig_p2pkh_from_sig c k9 s9 h9) small) \<and>
      (length (scriptsig_p2pkh_sig_script c k9 s9 h9) \<le> length big \<longrightarrow>
         produces (wally_scriptsig_p2pkh_from_sig c k9 s9 h9) big
           (scriptsig_p2pkh_sig_script c k9 s9 h9))"
    using sg_ne by (simp add: rejects_def produces_def scriptsig_p2pkh_sig_build store_0_eq)
  show ?thesis
    by (intro conjI)
      (rule c_csv c_tr c_ms c_p2pkh c_p2sh c_mu c_or c_wp c_wp0 c_der c_sig rejects_empty)+
qed

theorem builders_sizing_probe_witness:
  "csv_args_ok (replicate 66 2) 144 0 \<and>
   length (csv_script (replicate 66 2) 144) = 80 \<and>
   length (csv_opt_script (replicate 66 2) 144) = 77 \<and>
   reports (wally_scriptpubkey_csv_2of2_then_1_from_bytes (replicate 66 2) 144 0) [] 80 \<and>
   reports (wally_scriptpubkey_csv_2of2_then_1_from_bytes_opt (replicate 66 2) 144 0) [] 77 \<and>
   reports (wally_scriptpubkey_csv_2of2_then_1_from_bytes (replicate 66 2) 144 0) [7] 80 \<and>
   reports (wally_scriptpubkey_csv_2of2_then_1_from_bytes_opt (replicate 66 2) 144 0) [7] 77 \<and>
   produces (wally_scriptpubkey_csv_2of2_then_1_from_bytes (replicate 66 2) 144 0)
     (replicate 200 0) (csv_script (replicate 66 2) 144) \<and>
   produces (wally_scriptpubkey_csv_2of2_then_1_from_bytes_opt (replicate 66 2) 144 0)
     (replicate 200 0) (csv_opt_script (replicate 66 2) 144) \<and>
   p2tr_args_ok test_ext False (replicate 32 5) 0 \<and>
   length (p2tr_script test_ext (replicate 32 5) 0) = 34 \<and>
   reports (wally_scriptpubkey_p2tr_from_bytes test_ext False (replicate 32 5) 0) [] 34 \<and>
   reports (wally_scriptpubkey_p2tr_from_bytes test_ext False (replicate 32 5) 0) [7] 34 \<and>
   produces (wally_scriptpubkey_p2tr_from_bytes test_ext False (replicate 32 5) 0)
     (replicate 200 0) (p2tr_script test_ext (replicate 32 5) 0) \<and>
   scriptsig_multisig_args_ok test_ext [0x51] (replicate 64 1) [1] 0 \<and>
   length (scriptsig_multisig_script test_ext [0x51] (replicate 64 1) [1]) = 75 \<and>
   reports (wally_scriptsig_multisig_from_bytes test_ext [0x51] (replicate 64 1) [1] 0) [] 75 \<and>
   reports (wally_scriptsig_multisig_from_bytes test_ext [0x51] (replicate 64 1) [1] 0) [7] 75 \<and>
   produces (wally_scriptsig_multisig_from_bytes test_ext [0x51] (replicate 64 1) [1] 0)
     (replicate 200 0) (scriptsig_multisig_script test_ext [0x51] (replicate 64 1) [1]) \<and>
   p2pkh_args_ok test_ext (replicate 20 1) 0 \<and>
   length (p2pkh_script test_ext (replicate 20 1) 0) = 25 \<and>
   reports (wally_scriptpubkey_p2pkh_from_bytes test_ext (replicate 20 1) 0) [7] 25 \<and>
   produces (wally_scriptpubkey_p2pkh_from_bytes test_ext (replicate 20 1) 0)
     (replicate 200 0) (p2pkh_script test_ext (replicate 20 1) 0) \<and>
   p2sh_args_ok test_ext (replicate 20 1) 0 \<and>
   length (p2sh_script test_ext (replicate 20 1) 0) = 23 \<and>
   reports (wally_scriptpubkey_p2sh_from_bytes test_ext (replicate 20 1) 0) [7] 23 \<and>
   produces (wally_scriptpubkey_p2sh_from_bytes test_ext (replicate 20 1) 0)
     (replicate 200 0) (p2sh_script test_ext (replicate 20 1) 0) \<and>
   multisig_args_ok (replicate 33 3) 1 0 \<and>
   length (multisig_script (replicate 33 3) 1 0) = 37 \<and>
   reports (wally_scriptpubkey_multisig_from_bytes (replicate 33 3) 1 0) [7] 37 \<and>
   produces (wally_scriptpubkey_multisig_from_bytes (replicate 33 3) 1 0)
     (replicate 200 0) (multisig_script (replicate 33 3) 1 0) \<and>
   op_return_args_ok [1, 2, 3] 0 \<and>
   length (op_return_template [1, 2, 3]) = 5 \<and>
   produces (wally_scriptpubkey_op_return_from_bytes test_ext [1, 2, 3] 0)
     (replicate 200 0) (op_return_template [1, 2, 3]) \<and>
   witness_program_args_ok test_ext (replicate 20 4) 0 0 \<and>
   length (witness_program_script test_ext (replicate 20 4) 0 0) = 22 \<and>
   produces (wally_witness_program_from_bytes_and_version test_ext (replicate 20 4) 0 0)
     (replicate 200 0) (witness_program_script test_ext (replicate 20 4) 0 0) \<and>
   produces (wally_witness_program_from_bytes test_ext (replicate 20 4) 0)
     (replicate 200 0) (witness_program_script test_ext (replicate 20 4) 0 0) \<and>
   scriptsig_p2pkh_der_args_ok (replicate 33 2) (replicate 71 48) \<and>
   length (scriptsig_p2pkh_template (replicate 71 48) (replicate 33 2)) = 106 \<and>
   rejects (wally_scriptsig_p2pkh_from_der test_ext (replicate 33 2) (replicate 71 48)) [7] \<and>
   produces (wally_scriptsig_p2pkh_from_der test_ext (replicate 33 2) (replicate 71 48))
     (replicate 200 0) (scriptsig_p2pkh_template (replicate 71 48) (replicate 33 2)) \<and>
   scriptsig_p2pkh_sig_args_ok test_ext (replicate 33 2) (replicate 64 1) 1 \<and>
   length (scriptsig_p2pkh_sig_script test_ext (replicate 33 2) (replicate 64 1) 1) = 106 \<and>
   rejects (wally_scriptsig_p2pkh_from_sig test_ext (replicate 33 2) (replicate 64 1) 1) [] \<and>
   rejects (wally_scriptsig_p2pkh_from_sig test_ext (replicate 33 2) (replicate 64 1) 1) [7] \<and>
   produces (wally_scriptsig_p2pkh_from_sig test_ext (replicate 33 2) (replicate 64 1) 1)
     (replicate 200 0) (scriptsig_p2pkh_sig_script test_ext (replicate 33 2) (replicate 64 1) 1)"
proof -
  have one: "elements bytes (Suc 0) sz = [take sz bytes]" for bytes sz
    using elements.simps(2) [of bytes 0 sz] by simp
  have h: "csv_args_ok (replicate 66 2) 144 0" "p2tr_args_ok test_ext False (replicate 32 5) 0"
    "scriptsig_multisig_args_ok test_ext [0x51] (replicate 64 1) [1] 0"
    "p2pkh_args_ok test_ext (replicate 20 1) 0" "p2sh_args_ok test_ext (replicate 20 1) 0"
    "multisig_args_ok (replicate 33 3) 1 0" "op_return_args_ok [1, 2, 3] 0"
    "witness_program_args_ok test_ext (replicate 20 4) 0 0"
    "scriptsig_p2pkh_der_args_ok (replicate 33 2) (replicate 71 48)"
    "scriptsig_p2pkh_sig_args_ok test_ext (replicate 33 2) (replicate 64 1) 1"
    by (simp_all add: csv_args_ok_def p2tr_args_ok_def scriptsig_multisig_args_ok_def
        p2pkh_args_ok_def p2sh_args_ok_def multisig_args_ok_def op_return_args_ok_def
        witness_program_args_ok_def scriptsig_p2pkh_der_args_ok_def
        scriptsig_p2pkh_sig_args_ok_def sig_to_der_ok_def test_ext_def one)
  have l: "length (csv_script (replicate 66 2) 144) = 80"
    "length (csv_opt_script (replicate 66 2) 144) = 77"
    "length (p2tr_script test_ext (replicate 32 5) 0) = 34"
    "length (p2pkh_script test_ext (replicate 20 1) 0) = 25"
    "length (p2sh_script test_ext (replicate 20 1) 0) = 23"
    "length (multisig_script (replicate 33 3) 1 0) = 37"
    by (simp_all add: csv_script_length scriptint_144 p2tr_build(2) [OF h(2)]
        script_lengths(1) [OF h(4)] script_lengths(2) [OF h(5)] multisig_build(2) [OF h(6)])
  have m: "length (scriptsig_multisig_script test_ext [0x51] (replicate 64 1) [1]) = 75"
    "length (op_return_template [1, 2, 3]) = 5"
    "length (witness_program_script test_ext (replicate 20 4) 0 0) = 22"
    "length (scriptsig_p2pkh_template (replicate 71 48) (replicate 33 2)) = 106"
    "length (scriptsig_p2pkh_sig_script test_ext (replicate 33 2) (replicate 64 1) 1) = 106"
    by (simp_all add: scriptsig_multisig_script_def scriptsig_multisig_template_def
        der_and_hash_def op_return_template_def witness_program_script_def
        witness_program_template_def scriptsig_p2pkh_template_def
        scriptsig_p2pkh_sig_script_def data_push_def payload_def version_opcode_def
        test_ext_def one flag_defs)
  show ?thesis
    using h l m
      builders_sizing_probe [where c = test_ext and small = "[7]" and big = "replicate 200 0" and
        ?b6.0 = "replicate 66 2" and ?n6.0 = 144 and ?f6.0 = 0 and
        be = False and ?b7.0 = "replicate 32 5" and ?f7.0 = 0 and
        ?r10.0 = "[0x51]" and ?b10.0 = "replicate 64 1" and ?h10.0 = "[1]" and ?f10.0 = 0 and
        ?b1.0 = "replicate 20 1" and ?f1.0 = 0 and ?b2.0 = "replicate 20 1" and ?f2.0 = 0 and
        ?b4.0 = "replicate 33 3" and ?t4.0 = 1 and ?f4.0 = 0 and
        ?b3.0 = "[1, 2, 3]" and ?f3.0 = 0 and
        ?b5.0 = "replicate 20 4" and ?v5.0 = 0 and ?f5.0 = 0 and
        ?k8.0 = "replicate 33 2" and ?s8.0 = "replicate 71 48" and
        ?k9.0 = "replicate 33 2" and ?s9.0 = "replicate 64 1" and ?h9.0 = 1]
    by simp
qed

text \<open>
  C1 as stated fails: with a 20-byte hash and a zero-length buffer the P2PKH builder
  returns \<open>WALLY_EINVAL\<close> and reports 0, while with a 25-byte buffer it succeeds
  and reports 25.
\<close>

theorem p2pkh_zero_length_probe_counterexample:
  "wally_scriptpubkey_p2pkh_from_bytes test_ext (replicate 20 1) 0 [] = (WALLY_EINVAL, 0, []) \<and>
   fst (wally_scriptpubkey_p2pkh_from_bytes test_ext (replicate 20 1) 0 (replicate 25 0)) = WALLY_OK \<and>
   fst (snd (wally_scriptpubkey_p2pkh_from_bytes test_ext (replicate 20 1) 0 (replicate 25 0))) = 25"
  by (simp add: wally_scriptpubkey_p2pkh_from_bytes_def wally_script_push_from_bytes_def Let_def
      script_flags_ok_def flag_defs len_defs calc_push_opcode_size_def store_def window_def)

end
